theory Spec2Isabelle
  imports Main "HOL-Library.Multiset"
begin

section \<open>Data model of main.go\<close>

text \<open>
  The structs of the program. Go's \<open>string\<close> and \<open>[]byte\<close> are both byte
  sequences and are modelled as \<open>string\<close>. Go's \<open>int\<close> is modelled as
  \<open>int\<close>: pull-request numbers and page numbers are only compared, formatted
  and incremented by one, and the two counters are bounded by the length of a slice.
\<close>

record User =
  Login :: string

record Event =
  Actor :: User
  Event :: string

record Commit =
  Author :: User

record Pull =
  Number :: int
  HtmlUrl :: string
  CreatedAt :: string
  MergedAt :: string
  State :: string
  Title :: string
  User :: User
  MyContribution :: string
  Timestamp :: string

record RepoResult =
  Name :: string
  Pulls :: "Pull list"
  Authored :: int
  Merged :: int

text \<open>
  Every way the process can stop early: the \<open>log.Fatal\<close>/\<open>log.Fatalf\<close> calls of
  the source, and the run-time panic of an out-of-range slice expression.
\<close>

datatype fatal =
    CouldNotMkdir string
  | UnableToWrite string
  | HttpGetFailed
  | HttpStatus int
  | JSONUnmarshallingFailed
  | UnableToParseTime string
  | ReportFailed
  | SliceBoundsPanic

section \<open>Strings\<close>

text \<open>\<open>strings.LastIndex(s, substr)\<close>: the index of the last occurrence, or -1.\<close>

definition LastIndex :: "string \<Rightarrow> string \<Rightarrow> int" where
  "LastIndex s substr =
     (case filter (\<lambda>i. take (length substr) (drop i s) = substr) (rev [0..<Suc (length s)]) of
        [] \<Rightarrow> -1
      | i # _ \<Rightarrow> int i)"

text \<open>The slice expression \<open>s[:k]\<close>, which panics unless \<open>0 \<le> k \<le> len(s)\<close>.\<close>

definition sliceTo :: "string \<Rightarrow> int \<Rightarrow> fatal + string" where
  "sliceTo s k = (if 0 \<le> k \<and> k \<le> int (length s) then Inr (take (nat k) s) else Inl SliceBoundsPanic)"

text \<open>The verb \<open>%d\<close> of \<open>fmt.Sprintf\<close>: decimal digits, with a minus sign when negative.\<close>

fun decimal :: "nat \<Rightarrow> string" where
  "decimal n = (if n < 10 then [''0123456789'' ! n] else decimal (n div 10) @ [''0123456789'' ! (n mod 10)])"

declare decimal.simps [simp del]

definition fmt_d :: "int \<Rightarrow> string" where
  "fmt_d i = (if i < 0 then CHR ''-'' # decimal (nat (- i)) else decimal (nat i))"

section \<open>The file system under the cache\<close>

text \<open>
  The part of the operating system that \<open>os.Open\<close>, \<open>io.ReadAll\<close>,
  \<open>os.MkdirAll\<close> and \<open>os.WriteFile\<close> act on: a tree of directories and regular
  files, addressed by the list of the non-empty components of a slash-separated path.
  The components \<open>.\<close> and \<open>..\<close> and symbolic links are not interpreted, and the
  process is taken to have owner access to what it created (the mode 0700 of the source).
\<close>

datatype node = Dir | File string

type_synonym filesystem = "string list \<Rightarrow> node option"

fun splitOn :: "char \<Rightarrow> string \<Rightarrow> string list" where
  "splitOn c [] = [[]]"
| "splitOn c (x # xs) =
     (if x = c then [] # splitOn c xs
      else (case splitOn c xs of [] \<Rightarrow> [[x]] | y # ys \<Rightarrow> (x # y) # ys))"

definition components :: "string \<Rightarrow> string list" where
  "components path = filter (\<lambda>c. c \<noteq> []) (splitOn CHR ''/'' path)"

definition isDir :: "filesystem \<Rightarrow> string list \<Rightarrow> bool" where
  "isDir fs cs = (cs = [] \<or> fs cs = Some Dir)"

text \<open>
  \<open>os.Open\<close> followed by \<open>io.ReadAll\<close>: the bytes of a regular file; an error
  (\<open>None\<close>) when nothing is there (\<open>os.Open\<close> fails) or when the path is a directory
  (\<open>io.ReadAll\<close> fails).
\<close>

definition os_ReadAll :: "filesystem \<Rightarrow> string \<Rightarrow> string option" where
  "os_ReadAll fs path =
     (if components path = [] then None
      else (case fs (components path) of Some (File b) \<Rightarrow> Some b | _ \<Rightarrow> None))"

text \<open>
  \<open>os.MkdirAll\<close>: creates the directory and every missing parent; an error when the
  path is empty or when a regular file stands where a directory is needed.
\<close>

fun mkdirs :: "filesystem \<Rightarrow> string list list \<Rightarrow> filesystem option" where
  "mkdirs fs [] = Some fs"
| "mkdirs fs (d # ds) =
     (case fs d of
        Some (File b) \<Rightarrow> None
      | _ \<Rightarrow> mkdirs (fs(d \<mapsto> Dir)) ds)"

definition os_MkdirAll :: "filesystem \<Rightarrow> string \<Rightarrow> filesystem option" where
  "os_MkdirAll fs path =
     (if path = [] then None
      else mkdirs fs (map (\<lambda>n. take n (components path)) [1..<Suc (length (components path))]))"

text \<open>
  \<open>os.WriteFile\<close>: creates or truncates the file and writes the bytes; an error when
  the path names a directory or when its parent directory does not exist.
\<close>

definition os_WriteFile :: "filesystem \<Rightarrow> string \<Rightarrow> string \<Rightarrow> filesystem option" where
  "os_WriteFile fs path data =
     (if components path = [] then None
      else (case fs (components path) of
              Some Dir \<Rightarrow> None
            | _ \<Rightarrow> if isDir fs (butlast (components path))
                   then Some (fs(components path \<mapsto> File data))
                   else None))"

section \<open>The world the program runs in\<close>

text \<open>
  What the library calls of the program do that is visible from outside, in the order in
  which they happen.
\<close>

datatype effect =
    Open string
  | MkdirAll string
  | WriteFile string string
  | Get string
  | Sleep nat
  | Printf string
  | PrintHeader
  | Execute RepoResult

text \<open>The answer of \<open>http.Get\<close>: an error, or a response with its status code and the
  bytes that \<open>io.ReadAll\<close> obtains from its body.\<close>

datatype response = TransportError | Response int string

text \<open>
  The state: the file system, what the network answers to the n-th request for a URL, and
  the effects so far.
\<close>

record world =
  disk :: filesystem
  network :: "nat \<Rightarrow> string \<Rightarrow> response"
  trace :: "effect list"

definition emit :: "effect \<Rightarrow> world \<Rightarrow> world" where
  "emit e w = w\<lparr>trace := trace w @ [e]\<rparr>"

fun isGet :: "effect \<Rightarrow> bool" where
  "isGet (Get u) = True"
| "isGet _ = False"

text \<open>
  The library functions whose results the program only consumes. \<open>json.Unmarshal\<close>
  gives the value that the target variable holds afterwards and whether the returned
  error is non-nil; \<open>time.Parse\<close> with the layout of \<open>parseTime\<close> gives a time or
  an error (\<open>None\<close>); \<open>report.Execute\<close> gives whether its error is non-nil.
\<close>

record Time =
  Year :: int
  Month :: nat
  Day :: nat

record golib =
  unmarshalPulls :: "string \<Rightarrow> Pull list \<times> bool"
  unmarshalEvents :: "string \<Rightarrow> Event list \<times> bool"
  unmarshalCommit :: "string \<Rightarrow> Commit \<times> bool"
  timeParse :: "string \<Rightarrow> Time option"
  executeFails :: "RepoResult \<Rightarrow> bool"

text \<open>
  \<open>ts.Format("2006-01-02")\<close>: zero-padded year, month and day. The layout of
  \<open>parseTime\<close> admits four-digit years only, so the year is never negative.
\<close>

definition zeroPad :: "nat \<Rightarrow> nat \<Rightarrow> string" where
  "zeroPad width n = replicate (width - length (decimal n)) CHR ''0'' @ decimal n"

definition Format :: "Time \<Rightarrow> string" where
  "Format ts = zeroPad 4 (nat (Year ts)) @ ''-'' @ zeroPad 2 (Month ts) @ ''-'' @ zeroPad 2 (Day ts)"

section \<open>The cache functions\<close>

text \<open>\<open>readCache\<close>: \<open>None\<close> stands for a non-nil \<open>err\<close>.\<close>

definition readCache :: "string \<Rightarrow> world \<Rightarrow> string option \<times> world" where
  "readCache path w = (os_ReadAll (disk w) path, emit (Open path) w)"

text \<open>
  \<open>writeCache\<close>: the directory is the path up to its last slash. The result carries the
  world as the call leaves it, also when the process stops.
\<close>

definition writeCache :: "string \<Rightarrow> string \<Rightarrow> world \<Rightarrow> (fatal + unit) \<times> world" where
  "writeCache path data w =
     (case sliceTo path (LastIndex path ''/'') of
        Inl e \<Rightarrow> (Inl e, w)
      | Inr subdir \<Rightarrow>
          (let w1 = emit (MkdirAll subdir) w in
           case os_MkdirAll (disk w1) subdir of
             None \<Rightarrow> (Inl (CouldNotMkdir subdir), w1)
           | Some fs1 \<Rightarrow>
               (let w2 = emit (WriteFile path data) (w1\<lparr>disk := fs1\<rparr>) in
                case os_WriteFile (disk w2) path data of
                  None \<Rightarrow> (Inl (UnableToWrite path), w2)
                | Some fs2 \<Rightarrow> (Inr (), w2\<lparr>disk := fs2\<rparr>))))"

section \<open>The remote fetcher\<close>

text \<open>
  \<open>httpGet\<close>: the body is read before the status is looked at and the error of that
  read is dropped; the only status test is \<open>resp.StatusCode > 299\<close>; the sleep of
  5000 ms happens only when the call returns.
\<close>

definition httpGet :: "string \<Rightarrow> world \<Rightarrow> (fatal + string) \<times> world" where
  "httpGet url w =
     (let w1 = emit (Get url) w in
      case network w (length (filter isGet (trace w))) url of
        TransportError \<Rightarrow> (Inl HttpGetFailed, w1)
      | Response StatusCode body \<Rightarrow>
          if StatusCode > 299 then (Inl (HttpStatus StatusCode), w1)
          else (Inr body, emit (Sleep 5000) w1))"

section \<open>The resource loaders\<close>

definition commitFilename :: "string \<Rightarrow> string \<Rightarrow> string" where
  "commitFilename repo sha = ''cache/'' @ repo @ ''/commits/'' @ sha @ ''.json''"

definition eventsFilename :: "string \<Rightarrow> int \<Rightarrow> string" where
  "eventsFilename repo issueNumber = ''cache/'' @ repo @ ''/events/'' @ fmt_d issueNumber @ ''.json''"

definition pullsFilename :: "string \<Rightarrow> int \<Rightarrow> string" where
  "pullsFilename repo page = ''cache/'' @ repo @ ''/pulls/'' @ fmt_d page @ ''.json''"

definition commitUrl :: "string \<Rightarrow> string \<Rightarrow> string" where
  "commitUrl repo sha = ''https://api.github.com/repos/'' @ repo @ ''/commits/'' @ sha"

definition eventsUrl :: "string \<Rightarrow> int \<Rightarrow> string" where
  "eventsUrl repo issueNumber =
     ''https://api.github.com/repos/'' @ repo @ ''/issues/'' @ fmt_d issueNumber @ ''/events''"

definition pullsUrl :: "string \<Rightarrow> int \<Rightarrow> string" where
  "pullsUrl repo page =
     ''https://api.github.com/repos/'' @ repo @ ''/pulls?state=all&page='' @ fmt_d page"

definition cacheMiss :: "string \<Rightarrow> string" where
  "cacheMiss url = ''cache miss, reading '' @ url @ '' from the wire''"

text \<open>
  The three loaders have one shape, written out three times in the source. On a cache hit
  the error of \<open>json.Unmarshal\<close> is not looked at; after a fetch it is.
\<close>

definition loadCommit :: "golib \<Rightarrow> string \<Rightarrow> string \<Rightarrow> world \<Rightarrow> (fatal + Commit) \<times> world" where
  "loadCommit L repo sha w =
     (let jsonFilename = commitFilename repo sha in
      case readCache jsonFilename w of
        (Some data, w1) \<Rightarrow> (Inr (fst (unmarshalCommit L data)), w1)
      | (None, w1) \<Rightarrow>
          (let url = commitUrl repo sha; w2 = emit (Printf (cacheMiss url)) w1 in
           case httpGet url w2 of
             (Inl e, w3) \<Rightarrow> (Inl e, w3)
           | (Inr body, w3) \<Rightarrow>
               (case writeCache jsonFilename body w3 of
                  (Inl e, w4) \<Rightarrow> (Inl e, w4)
                | (Inr u, w4) \<Rightarrow>
                    if snd (unmarshalCommit L body) then (Inl JSONUnmarshallingFailed, w4)
                    else (Inr (fst (unmarshalCommit L body)), w4))))"

definition loadEvents :: "golib \<Rightarrow> string \<Rightarrow> int \<Rightarrow> world \<Rightarrow> (fatal + Event list) \<times> world" where
  "loadEvents L repo issueNumber w =
     (let jsonFilename = eventsFilename repo issueNumber in
      case readCache jsonFilename w of
        (Some data, w1) \<Rightarrow> (Inr (fst (unmarshalEvents L data)), w1)
      | (None, w1) \<Rightarrow>
          (let url = eventsUrl repo issueNumber; w2 = emit (Printf (cacheMiss url)) w1 in
           case httpGet url w2 of
             (Inl e, w3) \<Rightarrow> (Inl e, w3)
           | (Inr data, w3) \<Rightarrow>
               (case writeCache jsonFilename data w3 of
                  (Inl e, w4) \<Rightarrow> (Inl e, w4)
                | (Inr u, w4) \<Rightarrow>
                    if snd (unmarshalEvents L data) then (Inl JSONUnmarshallingFailed, w4)
                    else (Inr (fst (unmarshalEvents L data)), w4))))"

definition loadPulls :: "golib \<Rightarrow> string \<Rightarrow> int \<Rightarrow> world \<Rightarrow> (fatal + Pull list) \<times> world" where
  "loadPulls L repo page w =
     (let jsonFilename = pullsFilename repo page in
      case readCache jsonFilename w of
        (Some data, w1) \<Rightarrow> (Inr (fst (unmarshalPulls L data)), w1)
      | (None, w1) \<Rightarrow>
          (let url = pullsUrl repo page; w2 = emit (Printf (cacheMiss url)) w1 in
           case httpGet url w2 of
             (Inl e, w3) \<Rightarrow> (Inl e, w3)
           | (Inr data, w3) \<Rightarrow>
               (case writeCache jsonFilename data w3 of
                  (Inl e, w4) \<Rightarrow> (Inl e, w4)
                | (Inr u, w4) \<Rightarrow>
                    if snd (unmarshalPulls L data) then (Inl JSONUnmarshallingFailed, w4)
                    else (Inr (fst (unmarshalPulls L data)), w4))))"

section \<open>Who merged a pull request\<close>

text \<open>The loop of \<open>whoMerged\<close> over the loaded events.\<close>

fun firstMerged :: "Event list \<Rightarrow> User" where
  "firstMerged [] = \<lparr>Login = ''nobody''\<rparr>"
| "firstMerged (event # events) =
     (if Event event = ''merged'' then Actor event else firstMerged events)"

definition whoMerged :: "golib \<Rightarrow> string \<Rightarrow> int \<Rightarrow> world \<Rightarrow> (fatal + User) \<times> world" where
  "whoMerged L repo issueNumber w =
     (case loadEvents L repo issueNumber w of
        (Inl e, w1) \<Rightarrow> (Inl e, w1)
      | (Inr events, w1) \<Rightarrow> (Inr (firstMerged events), w1))"

definition parseTime :: "golib \<Rightarrow> Pull \<Rightarrow> fatal + Time" where
  "parseTime L pull =
     (case timeParse L (CreatedAt pull) of
        None \<Rightarrow> Inl (UnableToParseTime (CreatedAt pull))
      | Some parsedTime \<Rightarrow> Inr parsedTime)"

section \<open>Sorting a page\<close>

text \<open>The three methods of \<open>PullList\<close>.\<close>

definition Len :: "Pull list \<Rightarrow> nat" where
  "Len pl = length pl"

definition Less :: "Pull list \<Rightarrow> nat \<Rightarrow> nat \<Rightarrow> bool" where
  "Less pl i j = (Number (pl ! i) > Number (pl ! j))"

definition Swap :: "Pull list \<Rightarrow> nat \<Rightarrow> nat \<Rightarrow> Pull list" where
  "Swap pl i j = pl[i := pl ! j, j := pl ! i]"

text \<open>
  \<open>sort.Sort\<close> reaches the slice only through these methods. It is modelled by the
  insertion sort of the library, which is what \<open>sort.Sort\<close> runs on a slice of at most
  twelve elements; on a longer slice the library runs another comparison sort through the
  same methods, whose result can differ only in the order of pulls with equal numbers.
  \<open>insertDown pl j\<close> is the inner loop
  \<^verbatim>\<open>for j := i; j > a && data.Less(j, j-1); j-- { data.Swap(j, j-1) }\<close>
  and \<open>sort_Sort\<close> runs it for \<open>i = 1, ..., Len - 1\<close>.
\<close>

fun insertDown :: "Pull list \<Rightarrow> nat \<Rightarrow> Pull list" where
  "insertDown pl 0 = pl"
| "insertDown pl (Suc j) = (if Less pl (Suc j) j then insertDown (Swap pl (Suc j) j) j else pl)"

definition sort_Sort :: "Pull list \<Rightarrow> Pull list" where
  "sort_Sort pl = foldl insertDown pl [1..<Len pl]"

section \<open>The pagination driver\<close>

text \<open>The local variables \<open>pulls\<close>, \<open>authored\<close> and \<open>merged\<close> of \<open>main\<close>.\<close>

record locals =
  pulls :: "Pull list"
  authored :: int
  merged :: int

text \<open>The contribution decided by the conditional in the loop body of \<open>main\<close>.\<close>

datatype contribution = authored_tag | merged_tag | no_tag

definition classify :: "golib \<Rightarrow> string \<Rightarrow> Pull \<Rightarrow> world \<Rightarrow> (fatal + contribution) \<times> world" where
  "classify L repo p w =
     (if Login (User p) = ''mpenkov'' then (Inr authored_tag, w)
      else if State p = ''closed'' then
        (case whoMerged L repo (Number p) w of
           (Inl e, w1) \<Rightarrow> (Inl e, w1)
         | (Inr u, w1) \<Rightarrow> if Login u = ''mpenkov'' then (Inr merged_tag, w1) else (Inr no_tag, w1))
      else (Inr no_tag, w))"

text \<open>What the branches of that conditional do to the local variables.\<close>

fun tally :: "contribution \<Rightarrow> Pull \<Rightarrow> locals \<Rightarrow> locals" where
  "tally authored_tag p a =
     a\<lparr>pulls := pulls a @ [p\<lparr>MyContribution := ''authored''\<rparr>], authored := authored a + 1\<rparr>"
| "tally merged_tag p a =
     a\<lparr>pulls := pulls a @ [p\<lparr>MyContribution := ''merged''\<rparr>], merged := merged a + 1\<rparr>"
| "tally no_tag p a = a"

text \<open>
  The inner loop over a page. The result is the value of \<open>done\<close> and the local
  variables when the loop is left.
\<close>

fun scanPage :: "golib \<Rightarrow> string \<Rightarrow> Pull list \<Rightarrow> locals \<Rightarrow> world \<Rightarrow> (fatal + bool \<times> locals) \<times> world" where
  "scanPage L repo [] a w = (Inr (False, a), w)"
| "scanPage L repo (p # ps) a w =
     (case parseTime L p of
        Inl e \<Rightarrow> (Inl e, w)
      | Inr ts \<Rightarrow>
          if Year ts > 2021 then scanPage L repo ps a w
          else if Year ts < 2021 then (Inr (True, a), w)
          else (case classify L repo (p\<lparr>Timestamp := Format ts\<rparr>) w of
                  (Inl e, w1) \<Rightarrow> (Inl e, w1)
                | (Inr c, w1) \<Rightarrow> scanPage L repo ps (tally c (p\<lparr>Timestamp := Format ts\<rparr>) a) w1))"

text \<open>
  The outer loop \<^verbatim>\<open>for page := 1; !done; page++\<close>. Nothing bounds the number of
  pages, so the loop is a partial function: \<open>None\<close> is a run that never leaves it.
\<close>

partial_function (option) pageLoop ::
  "golib \<Rightarrow> string \<Rightarrow> int \<Rightarrow> locals \<Rightarrow> world \<Rightarrow> ((fatal + locals) \<times> world) option" where
  "pageLoop L repo page a w =
     (case loadPulls L repo page w of
        (Inl e, w1) \<Rightarrow> Some (Inl e, w1)
      | (Inr pagePulls, w1) \<Rightarrow>
          if length pagePulls = 0 then Some (Inr a, w1)
          else (case scanPage L repo (sort_Sort pagePulls) a w1 of
                  (Inl e, w2) \<Rightarrow> Some (Inl e, w2)
                | (Inr (done, a'), w2) \<Rightarrow>
                    if done then Some (Inr a', w2) else pageLoop L repo (page + 1) a' w2))"

text \<open>The body of the loop over the repositories, and the loop.\<close>

definition repoResult :: "string \<Rightarrow> locals \<Rightarrow> RepoResult" where
  "repoResult repo a = \<lparr>Name = repo, Pulls = pulls a, Authored = authored a, Merged = merged a\<rparr>"

fun repoLoop :: "golib \<Rightarrow> string list \<Rightarrow> world \<Rightarrow> ((fatal + unit) \<times> world) option" where
  "repoLoop L [] w = Some (Inr (), w)"
| "repoLoop L (repo # repos) w =
     (case pageLoop L repo 1 \<lparr>pulls = [], authored = 0, merged = 0\<rparr> w of
        None \<Rightarrow> None
      | Some (Inl e, w1) \<Rightarrow> Some (Inl e, w1)
      | Some (Inr a, w1) \<Rightarrow>
          (let w2 = emit (Execute (repoResult repo a)) w1 in
           if executeFails L (repoResult repo a) then Some (Inl ReportFailed, w2)
           else repoLoop L repos w2))"

definition main :: "golib \<Rightarrow> string list \<Rightarrow> world \<Rightarrow> ((fatal + unit) \<times> world) option" where
  "main L repos w = repoLoop L repos (emit PrintHeader w)"

section \<open>Concrete inputs\<close>

text \<open>
  Five pull requests, stand-ins for the library functions that know a handful of
  payloads and timestamps, a network that serves two repositories, and worlds with an
  empty and with a filled cache. The theorems below are instantiated on them.
\<close>

definition demoPull5 :: Pull where
  "demoPull5 = \<lparr>Number = 5, HtmlUrl = ''https://github.com/octo/demo/pull/5'',
     CreatedAt = ''2021-03-01T00:00:00Z'', MergedAt = [], State = ''open'', Title = ''five'',
     User = \<lparr>Login = ''mpenkov''\<rparr>, MyContribution = [], Timestamp = []\<rparr>"

definition demoPull4 :: Pull where
  "demoPull4 = \<lparr>Number = 4, HtmlUrl = ''https://github.com/octo/demo/pull/4'',
     CreatedAt = ''2021-02-01T00:00:00Z'', MergedAt = ''2021-02-02T00:00:00Z'', State = ''closed'',
     Title = ''four'', User = \<lparr>Login = ''other''\<rparr>, MyContribution = [], Timestamp = []\<rparr>"

definition demoPull3 :: Pull where
  "demoPull3 = \<lparr>Number = 3, HtmlUrl = ''https://github.com/octo/old/pull/3'',
     CreatedAt = ''2020-12-31T23:59:59Z'', MergedAt = [], State = ''open'', Title = ''three'',
     User = \<lparr>Login = ''mpenkov''\<rparr>, MyContribution = [], Timestamp = []\<rparr>"

definition demoPull9 :: Pull where
  "demoPull9 = \<lparr>Number = 9, HtmlUrl = ''https://github.com/octo/old/pull/9'',
     CreatedAt = ''2022-01-15T08:00:00Z'', MergedAt = [], State = ''open'', Title = ''nine'',
     User = \<lparr>Login = ''mpenkov''\<rparr>, MyContribution = [], Timestamp = []\<rparr>"

definition demoPull2 :: Pull where
  "demoPull2 = \<lparr>Number = 2, HtmlUrl = ''https://github.com/octo/old/pull/2'',
     CreatedAt = ''2021-03-01T00:00:00Z'', MergedAt = [], State = ''open'', Title = ''two'',
     User = \<lparr>Login = ''mpenkov''\<rparr>, MyContribution = [], Timestamp = []\<rparr>"

definition demoEvents :: "Event list" where
  "demoEvents = [\<lparr>Actor = \<lparr>Login = ''other''\<rparr>, Event = ''closed''\<rparr>,
                 \<lparr>Actor = \<lparr>Login = ''mpenkov''\<rparr>, Event = ''merged''\<rparr>,
                 \<lparr>Actor = \<lparr>Login = ''other''\<rparr>, Event = ''merged''\<rparr>]"

definition demoLib :: golib where
  "demoLib = \<lparr>
     unmarshalPulls = (\<lambda>data.
        if data = ''page-4-5'' then ([demoPull4, demoPull5], False)
        else if data = ''page-3-9-2-5'' then ([demoPull3, demoPull9, demoPull2, demoPull5], False)
        else if data = ''page-4'' then ([demoPull4], False)
        else if data = ''[]'' then ([], False)
        else ([], True)),
     unmarshalEvents = (\<lambda>data.
        if data = ''events-4'' then (demoEvents, False) else ([], True)),
     unmarshalCommit = (\<lambda>data.
        if data = ''commit-abc'' then (\<lparr>Author = \<lparr>Login = ''mpenkov''\<rparr>\<rparr>, False)
        else (\<lparr>Author = \<lparr>Login = []\<rparr>\<rparr>, True)),
     timeParse = (\<lambda>s.
        if s = ''2021-03-01T00:00:00Z'' then Some \<lparr>Year = 2021, Month = 3, Day = 1\<rparr>
        else if s = ''2021-02-01T00:00:00Z'' then Some \<lparr>Year = 2021, Month = 2, Day = 1\<rparr>
        else if s = ''2020-12-31T23:59:59Z'' then Some \<lparr>Year = 2020, Month = 12, Day = 31\<rparr>
        else if s = ''2022-01-15T08:00:00Z'' then Some \<lparr>Year = 2022, Month = 1, Day = 15\<rparr>
        else None),
     executeFails = (\<lambda>r. False)\<rparr>"

definition demoNetwork :: "nat \<Rightarrow> string \<Rightarrow> response" where
  "demoNetwork n url =
     (if url = pullsUrl ''octo/demo'' 1 then Response 200 ''page-4-5''
      else if url = pullsUrl ''octo/demo'' 2 then Response 200 ''[]''
      else if url = eventsUrl ''octo/demo'' 4 then Response 200 ''events-4''
      else if url = pullsUrl ''octo/old'' 1 then Response 200 ''page-3-9-2-5''
      else if url = pullsUrl ''octo/old'' 2 then Response 200 ''page-4''
      else if url = ''https://example.org/upgrade'' then Response 101 ''switching''
      else if url = ''https://example.org/down'' then TransportError
      else Response 404 ''Not Found'')"

definition emptyCacheWorld :: world where
  "emptyCacheWorld = \<lparr>disk = Map.empty, network = demoNetwork, trace = []\<rparr>"

text \<open>A cache whose three entries for \<open>octo/demo\<close> hold a payload that does not decode.\<close>

definition corruptCacheWorld :: world where
  "corruptCacheWorld = \<lparr>
     disk = [[''cache''] \<mapsto> Dir, [''cache'', ''octo''] \<mapsto> Dir, [''cache'', ''octo'', ''demo''] \<mapsto> Dir,
             [''cache'', ''octo'', ''demo'', ''pulls''] \<mapsto> Dir,
             [''cache'', ''octo'', ''demo'', ''events''] \<mapsto> Dir,
             [''cache'', ''octo'', ''demo'', ''commits''] \<mapsto> Dir,
             [''cache'', ''octo'', ''demo'', ''pulls'', ''1.json''] \<mapsto> File ''{'',
             [''cache'', ''octo'', ''demo'', ''events'', ''4.json''] \<mapsto> File ''{'',
             [''cache'', ''octo'', ''demo'', ''commits'', ''abc.json''] \<mapsto> File ''{''],
     network = demoNetwork, trace = []\<rparr>"

text \<open>A cache that holds the first page, one event list and one commit of \<open>octo/demo\<close>.\<close>

definition filledCacheWorld :: world where
  "filledCacheWorld = \<lparr>
     disk = [[''cache''] \<mapsto> Dir, [''cache'', ''octo''] \<mapsto> Dir, [''cache'', ''octo'', ''demo''] \<mapsto> Dir,
             [''cache'', ''octo'', ''demo'', ''pulls''] \<mapsto> Dir,
             [''cache'', ''octo'', ''demo'', ''events''] \<mapsto> Dir,
             [''cache'', ''octo'', ''demo'', ''commits''] \<mapsto> Dir,
             [''cache'', ''octo'', ''demo'', ''pulls'', ''1.json''] \<mapsto> File ''page-4-5'',
             [''cache'', ''octo'', ''demo'', ''events'', ''4.json''] \<mapsto> File ''events-4'',
             [''cache'', ''octo'', ''demo'', ''commits'', ''abc.json''] \<mapsto> File ''commit-abc''],
     network = demoNetwork, trace = []\<rparr>"

section \<open>Devices of the proofs\<close>

text \<open>Inserting into a list that descends by number, and doing so for a whole list.\<close>

fun place :: "Pull \<Rightarrow> Pull list \<Rightarrow> Pull list" where
  "place x [] = [x]"
| "place x (y # ys) = (if Number x > Number y then x # y # ys else y # place x ys)"

definition placeAll :: "Pull list \<Rightarrow> Pull list" where
  "placeAll xs = foldl (\<lambda>acc x. place x acc) [] xs"

definition descending :: "Pull list \<Rightarrow> bool" where
  "descending pl = sorted_wrt (\<lambda>a b. Number a \<ge> Number b) pl"

text \<open>The counters agree with the accumulated pulls.\<close>

definition tallied :: "locals \<Rightarrow> bool" where
  "tallied a = (authored a + merged a = int (length (pulls a)))"

text \<open>
  The trace of the second world is that of the first, followed by effects that all
  satisfy \<open>P\<close>.
\<close>

definition grown :: "(effect \<Rightarrow> bool) \<Rightarrow> world \<Rightarrow> world \<Rightarrow> bool" where
  "grown P w w' = (\<exists>es. trace w' = trace w @ es \<and> (\<forall>e\<in>set es. P e))"

fun isExecute :: "effect \<Rightarrow> bool" where
  "isExecute (Execute r) = True"
| "isExecute _ = False"

text \<open>The effects that happened after the trace had length \<open>n\<close>.\<close>

definition since :: "nat \<Rightarrow> world \<Rightarrow> effect list" where
  "since n w = drop n (trace w)"

section \<open>General facts\<close>

lemma pair_with_snd: "fst x = a \<Longrightarrow> x = (a, snd x)"
  by (cases x) simp

section \<open>The cache store\<close>

lemma take_one_drop: "take (Suc 0) (drop i s) = [c] \<longleftrightarrow> i < length s \<and> s ! i = c"
proof (cases "i < length s")
  case True
  then have "drop i s = s ! i # drop (Suc i) s"
    by (simp add: Cons_nth_drop_Suc)
  then show ?thesis using True by simp
next
  case False
  then show ?thesis by simp
qed

lemma LastIndex_absent: "LastIndex s [c] = -1 \<longleftrightarrow> c \<notin> set s"
proof -
  have "filter (\<lambda>i. take (length [c]) (drop i s) = [c]) (rev [0..<Suc (length s)]) = [] \<longleftrightarrow> c \<notin> set s"
    by (auto simp: take_one_drop filter_empty_conv in_set_conv_nth simp del: upt_Suc)
  then show ?thesis
    unfolding LastIndex_def by (auto split: list.splits)
qed

lemma LastIndex_bounds: "-1 \<le> LastIndex s t \<and> LastIndex s t \<le> int (length s)"
proof -
  have "set (filter (\<lambda>i. take (length t) (drop i s) = t) (rev [0..<Suc (length s)])) \<subseteq> {0..length s}"
    by auto
  then show ?thesis
    unfolding LastIndex_def by (auto split: list.splits)
qed

lemma filter_rev_upt_greatest:
  "P k \<Longrightarrow> k < n \<Longrightarrow> \<forall>j. k < j \<and> j < n \<longrightarrow> \<not> P j \<Longrightarrow>
   \<exists>rest. filter P (rev [0..<n]) = k # rest"
proof (induction n)
  case 0
  then show ?case by simp
next
  case (Suc n)
  show ?case
  proof (cases "k = n")
    case True
    with Suc.prems show ?thesis by simp
  next
    case False
    with Suc.prems have "k < n" and "\<not> P n" and "\<forall>j. k < j \<and> j < n \<longrightarrow> \<not> P j"
      by auto
    with Suc.IH Suc.prems(1) show ?thesis by simp
  qed
qed

lemma LastIndex_last_slash:
  assumes "c \<notin> set name"
  shows "LastIndex (dir @ [c] @ name) [c] = int (length dir)"
proof -
  let ?s = "dir @ [c] @ name"
  let ?P = "\<lambda>i. take (length [c]) (drop i ?s) = [c]"
  have P: "\<And>i. ?P i \<longleftrightarrow> i < length ?s \<and> ?s ! i = c"
    using take_one_drop[of _ ?s c] by simp
  have here: "?P (length dir)"
    unfolding P by (simp add: nth_append)
  have later: "\<forall>j. length dir < j \<and> j < Suc (length ?s) \<longrightarrow> \<not> ?P j"
  proof (intro allI impI)
    fix j
    assume j: "length dir < j \<and> j < Suc (length ?s)"
    show "\<not> ?P j"
    proof
      assume "?P j"
      then have lt: "j < length ?s" and at: "?s ! j = c"
        unfolding P by auto
      from j lt have "?s ! j = name ! (j - Suc (length dir))"
        by (simp add: nth_append nth_Cons')
      moreover from j lt have "j - Suc (length dir) < length name"
        by simp
      ultimately have "?s ! j \<in> set name"
        by simp
      with at assms show False by simp
    qed
  qed
  have "length dir < Suc (length ?s)"
    by simp
  from filter_rev_upt_greatest[of ?P, OF here this later]
  show ?thesis
    unfolding LastIndex_def by auto
qed

lemma mkdirs_keeps_files:
  "mkdirs fs ds = Some fs' \<Longrightarrow> fs cs = Some (File b) \<Longrightarrow> fs' cs = Some (File b)"
proof (induction ds arbitrary: fs)
  case Nil
  then show ?case by simp
next
  case (Cons d ds)
  from Cons.prems have nf: "\<forall>x. fs d \<noteq> Some (File x)"
    and m: "mkdirs (fs(d \<mapsto> Dir)) ds = Some fs'"
    by (auto split: option.splits node.splits)
  from nf Cons.prems(2) have "d \<noteq> cs"
    by auto
  then have "(fs(d \<mapsto> Dir)) cs = Some (File b)"
    using Cons.prems(2) by simp
  from Cons.IH[OF m this] show ?case .
qed

lemma writeCache_keeps_other_files:
  assumes "writeCache path data w = (Inr (), w')"
    and "components path \<noteq> cs" and "disk w cs = Some (File b)"
  shows "disk w' cs = Some (File b)"
proof -
  from assms(1) obtain subdir fs1 where
    m: "os_MkdirAll (disk w) subdir = Some fs1"
    and wr: "os_WriteFile fs1 path data = Some (disk w')"
    by (auto simp: writeCache_def emit_def Let_def split: sum.splits option.splits)
  from m assms(3) have "fs1 cs = Some (File b)"
    by (auto simp: os_MkdirAll_def split: if_splits dest: mkdirs_keeps_files)
  moreover from wr have "disk w' = fs1(components path \<mapsto> File data)"
    by (auto simp: os_WriteFile_def split: if_splits option.splits node.splits)
  ultimately show ?thesis
    using assms(2) by simp
qed

lemma writeCache_stores:
  assumes "writeCache k b w = (Inr (), w1)"
  shows "os_ReadAll (disk w1) k = Some b"
  using assms
  by (auto simp: writeCache_def os_ReadAll_def os_WriteFile_def emit_def Let_def
      split: sum.splits option.splits if_splits node.splits)

lemma write_other_keeps_entry:
  assumes "writeCache k b w = (Inr (), w1)" and "writeCache k' b' w1 = (Inr (), w2)"
    and "components k' \<noteq> components k"
  shows "fst (readCache k w2) = Some b"
proof -
  from writeCache_stores[OF assms(1)]
  have c: "components k \<noteq> []" and f: "disk w1 (components k) = Some (File b)"
    by (auto simp: os_ReadAll_def split: if_splits option.splits node.splits)
  from writeCache_keeps_other_files[OF assms(2,3) f] c show ?thesis
    by (simp add: readCache_def os_ReadAll_def)
qed

text \<open>
  C4. When \<open>writeCache\<close> has written the bytes \<open>b\<close> under the key \<open>k\<close>, the next
  \<open>readCache\<close> of \<open>k\<close> gives exactly \<open>b\<close>, and so does a second one after it.
  (By \<open>write_other_keeps_entry\<close> a write to another file in between changes nothing.)
\<close>

theorem write_then_read_cache:
  assumes "writeCache k b w = (Inr (), w1)"
  shows "fst (readCache k w1) = Some b \<and> fst (readCache k (snd (readCache k w1))) = Some b"
  using writeCache_stores[OF assms]
  by (simp add: readCache_def emit_def)

theorem write_then_read_cache_witness:
  "fst (writeCache (pullsFilename ''octo/demo'' 1) ''page-4-5'' emptyCacheWorld) = Inr ()
   \<and> fst (readCache (pullsFilename ''octo/demo'' 1)
            (snd (writeCache (pullsFilename ''octo/demo'' 1) ''page-4-5'' emptyCacheWorld)))
       = Some ''page-4-5''
   \<and> fst (readCache (pullsFilename ''octo/demo'' 1)
            (snd (readCache (pullsFilename ''octo/demo'' 1)
               (snd (writeCache (pullsFilename ''octo/demo'' 1) ''page-4-5'' emptyCacheWorld)))))
       = Some ''page-4-5''"
proof -
  have ok: "fst (writeCache (pullsFilename ''octo/demo'' 1) ''page-4-5'' emptyCacheWorld) = Inr ()"
    by code_simp
  from write_then_read_cache[OF pair_with_snd[OF ok]] ok show ?thesis
    by simp
qed

text \<open>
  C10. \<open>writeCache\<close> slices its path at the last slash: on a path without a slash the
  slice expression is out of range and the call panics, on a path with one it does not,
  and the directory is what stands before the last slash. Each of the three file names
  that the loaders build contains a slash, so \<open>writeCache\<close> never panics on them.
\<close>

theorem writeCache_slash:
  "(CHR ''/'' \<notin> set path \<longrightarrow> writeCache path data w = (Inl SliceBoundsPanic, w))
   \<and> (CHR ''/'' \<in> set path \<longrightarrow> fst (writeCache path data w) \<noteq> Inl SliceBoundsPanic)
   \<and> (CHR ''/'' \<notin> set name \<longrightarrow>
        sliceTo (dir @ ''/'' @ name) (LastIndex (dir @ ''/'' @ name) ''/'') = Inr dir)
   \<and> CHR ''/'' \<in> set (pullsFilename repo page)
   \<and> CHR ''/'' \<in> set (eventsFilename repo issueNumber)
   \<and> CHR ''/'' \<in> set (commitFilename repo sha)
   \<and> fst (writeCache (pullsFilename repo page) data w) \<noteq> Inl SliceBoundsPanic
   \<and> fst (writeCache (eventsFilename repo issueNumber) data w) \<noteq> Inl SliceBoundsPanic
   \<and> fst (writeCache (commitFilename repo sha) data w) \<noteq> Inl SliceBoundsPanic"
proof -
  have absent: "CHR ''/'' \<notin> set p \<Longrightarrow> writeCache p d v = (Inl SliceBoundsPanic, v)" for p d v
    using LastIndex_absent[of p "CHR ''/''"] by (simp add: writeCache_def sliceTo_def)
  have present: "CHR ''/'' \<in> set p \<Longrightarrow> fst (writeCache p d v) \<noteq> Inl SliceBoundsPanic" for p d v
  proof -
    assume "CHR ''/'' \<in> set p"
    with LastIndex_absent[of p "CHR ''/''"] LastIndex_bounds[of p "''/''"]
    have "0 \<le> LastIndex p ''/'' \<and> LastIndex p ''/'' \<le> int (length p)"
      by simp
    then show ?thesis
      by (auto simp: writeCache_def sliceTo_def Let_def split: option.splits)
  qed
  have dir: "CHR ''/'' \<notin> set name \<Longrightarrow>
      sliceTo (dir @ ''/'' @ name) (LastIndex (dir @ ''/'' @ name) ''/'') = Inr dir"
    using LastIndex_last_slash[of "CHR ''/''" name dir] by (simp add: sliceTo_def)
  have p: "CHR ''/'' \<in> set (pullsFilename repo page)"
    by (simp add: pullsFilename_def)
  have e: "CHR ''/'' \<in> set (eventsFilename repo issueNumber)"
    by (simp add: eventsFilename_def)
  have c: "CHR ''/'' \<in> set (commitFilename repo sha)"
    by (simp add: commitFilename_def)
  from absent present dir p e c show ?thesis
    by blast
qed

theorem writeCache_slash_witness:
  "CHR ''/'' \<notin> set ''1.json''
   \<and> writeCache ''1.json'' ''[]'' emptyCacheWorld = (Inl SliceBoundsPanic, emptyCacheWorld)
   \<and> CHR ''/'' \<in> set ''cache/1.json''
   \<and> fst (writeCache ''cache/1.json'' ''[]'' emptyCacheWorld) \<noteq> Inl SliceBoundsPanic
   \<and> sliceTo (''cache/octo/demo/pulls'' @ ''/'' @ ''1.json'')
        (LastIndex (''cache/octo/demo/pulls'' @ ''/'' @ ''1.json'') ''/'') = Inr ''cache/octo/demo/pulls''"
  using writeCache_slash[of "''1.json''" "''[]''" emptyCacheWorld "''1.json''" "''cache/octo/demo/pulls''"]
    writeCache_slash[of "''cache/1.json''" "''[]''" emptyCacheWorld "''1.json''" "''cache/octo/demo/pulls''"]
  by simp

section \<open>The remote fetcher\<close>

lemma httpGet_response:
  "network w (length (filter isGet (trace w))) url = Response status body \<Longrightarrow>
   httpGet url w = (if status > 299 then (Inl (HttpStatus status), emit (Get url) w)
                    else (Inr body, emit (Sleep 5000) (emit (Get url) w)))"
  by (simp add: httpGet_def)

text \<open>
  C6, as the code has it. When the status code is greater than 299, \<open>httpGet\<close> stops
  the process at once with that status code, without sleeping; for every other status
  code, those below 200 included, it returns the body and sleeps.
\<close>

theorem httpGet_by_status:
  assumes "network w (length (filter isGet (trace w))) url = Response status body"
  shows "(status > 299 \<longrightarrow> httpGet url w = (Inl (HttpStatus status), emit (Get url) w))
       \<and> (status \<le> 299 \<longrightarrow> httpGet url w = (Inr body, emit (Sleep 5000) (emit (Get url) w)))"
  using httpGet_response[OF assms] by simp

theorem httpGet_by_status_witness:
  "network emptyCacheWorld (length (filter isGet (trace emptyCacheWorld))) ''https://example.org/gone''
     = Response 404 ''Not Found''
   \<and> (404::int) > 299
   \<and> httpGet ''https://example.org/gone'' emptyCacheWorld
     = (Inl (HttpStatus 404), emit (Get ''https://example.org/gone'') emptyCacheWorld)
   \<and> network emptyCacheWorld (length (filter isGet (trace emptyCacheWorld))) (pullsUrl ''octo/demo'' 2)
     = Response 200 ''[]''
   \<and> (200::int) \<le> 299
   \<and> httpGet (pullsUrl ''octo/demo'' 2) emptyCacheWorld
     = (Inr ''[]'', emit (Sleep 5000) (emit (Get (pullsUrl ''octo/demo'' 2)) emptyCacheWorld))"
proof -
  have a: "network emptyCacheWorld (length (filter isGet (trace emptyCacheWorld))) ''https://example.org/gone''
     = Response 404 ''Not Found''"
    by code_simp
  have b: "network emptyCacheWorld (length (filter isGet (trace emptyCacheWorld))) (pullsUrl ''octo/demo'' 2)
     = Response 200 ''[]''"
    by code_simp
  from httpGet_by_status[OF a] httpGet_by_status[OF b] a b show ?thesis
    by simp
qed

text \<open>
  The status code 101 lies outside the range from 200 to 299, and \<open>httpGet\<close> returns
  the body of such a response.
\<close>

theorem httpGet_returns_on_101:
  "network emptyCacheWorld (length (filter isGet (trace emptyCacheWorld))) ''https://example.org/upgrade''
     = Response 101 ''switching''
   \<and> \<not> ((200::int) \<le> 101 \<and> (101::int) \<le> 299)
   \<and> fst (httpGet ''https://example.org/upgrade'' emptyCacheWorld) = Inr ''switching''"
  by code_simp

section \<open>The resource loaders\<close>

lemma loadPulls_hit:
  "os_ReadAll (disk w) (pullsFilename repo page) = Some data \<Longrightarrow>
   loadPulls L repo page w
     = (Inr (fst (unmarshalPulls L data)), emit (Open (pullsFilename repo page)) w)"
  by (simp add: loadPulls_def readCache_def)

lemma loadEvents_hit:
  "os_ReadAll (disk w) (eventsFilename repo issueNumber) = Some data \<Longrightarrow>
   loadEvents L repo issueNumber w
     = (Inr (fst (unmarshalEvents L data)), emit (Open (eventsFilename repo issueNumber)) w)"
  by (simp add: loadEvents_def readCache_def)

lemma loadCommit_hit:
  "os_ReadAll (disk w) (commitFilename repo sha) = Some data \<Longrightarrow>
   loadCommit L repo sha w
     = (Inr (fst (unmarshalCommit L data)), emit (Open (commitFilename repo sha)) w)"
  by (simp add: loadCommit_def readCache_def)

lemma since_emit: "since (length (trace w)) (emit e w) = [e]"
  by (simp add: since_def emit_def)

lemma disk_emit: "disk (emit e w) = disk w"
  by (simp add: emit_def)

text \<open>
  C5. When the cache holds an entry for the key, each loader returns what the cached
  bytes decode to; the only effect of the call is the opening of the cache file, so there
  is no request to the network and no sleep, and the disk is as before.
\<close>

theorem cache_hit_no_fetch:
  "(os_ReadAll (disk w) (pullsFilename repo page) = Some pullsData \<longrightarrow>
      fst (loadPulls L repo page w) = Inr (fst (unmarshalPulls L pullsData))
      \<and> since (length (trace w)) (snd (loadPulls L repo page w)) = [Open (pullsFilename repo page)]
      \<and> disk (snd (loadPulls L repo page w)) = disk w)
   \<and> (os_ReadAll (disk w) (eventsFilename repo issueNumber) = Some eventsData \<longrightarrow>
      fst (loadEvents L repo issueNumber w) = Inr (fst (unmarshalEvents L eventsData))
      \<and> since (length (trace w)) (snd (loadEvents L repo issueNumber w))
          = [Open (eventsFilename repo issueNumber)]
      \<and> disk (snd (loadEvents L repo issueNumber w)) = disk w)
   \<and> (os_ReadAll (disk w) (commitFilename repo sha) = Some commitData \<longrightarrow>
      fst (loadCommit L repo sha w) = Inr (fst (unmarshalCommit L commitData))
      \<and> since (length (trace w)) (snd (loadCommit L repo sha w)) = [Open (commitFilename repo sha)]
      \<and> disk (snd (loadCommit L repo sha w)) = disk w)"
  by (simp add: loadPulls_hit loadEvents_hit loadCommit_hit since_emit disk_emit)

theorem cache_hit_no_fetch_witness:
  "os_ReadAll (disk filledCacheWorld) (pullsFilename ''octo/demo'' 1) = Some ''page-4-5''
   \<and> fst (loadPulls demoLib ''octo/demo'' 1 filledCacheWorld) = Inr [demoPull4, demoPull5]
   \<and> since (length (trace filledCacheWorld)) (snd (loadPulls demoLib ''octo/demo'' 1 filledCacheWorld))
       = [Open (pullsFilename ''octo/demo'' 1)]
   \<and> os_ReadAll (disk filledCacheWorld) (eventsFilename ''octo/demo'' 4) = Some ''events-4''
   \<and> fst (loadEvents demoLib ''octo/demo'' 4 filledCacheWorld) = Inr demoEvents
   \<and> since (length (trace filledCacheWorld)) (snd (loadEvents demoLib ''octo/demo'' 4 filledCacheWorld))
       = [Open (eventsFilename ''octo/demo'' 4)]
   \<and> os_ReadAll (disk filledCacheWorld) (commitFilename ''octo/demo'' ''abc'') = Some ''commit-abc''
   \<and> fst (loadCommit demoLib ''octo/demo'' ''abc'' filledCacheWorld)
       = Inr \<lparr>Author = \<lparr>Login = ''mpenkov''\<rparr>\<rparr>
   \<and> since (length (trace filledCacheWorld)) (snd (loadCommit demoLib ''octo/demo'' ''abc'' filledCacheWorld))
       = [Open (commitFilename ''octo/demo'' ''abc'')]"
proof -
  have p: "os_ReadAll (disk filledCacheWorld) (pullsFilename ''octo/demo'' 1) = Some ''page-4-5''"
    by code_simp
  have e: "os_ReadAll (disk filledCacheWorld) (eventsFilename ''octo/demo'' 4) = Some ''events-4''"
    by code_simp
  have c: "os_ReadAll (disk filledCacheWorld) (commitFilename ''octo/demo'' ''abc'') = Some ''commit-abc''"
    by code_simp
  from cache_hit_no_fetch[of filledCacheWorld "''octo/demo''" 1 "''page-4-5''" demoLib
      4 "''events-4''" "''abc''" "''commit-abc''"] p e c
  show ?thesis
    by (simp add: demoLib_def)
qed

text \<open>
  C1, what the code does instead. When the cache holds an entry for the key and
  \<open>json.Unmarshal\<close> reports an error on its bytes, each loader still returns: the
  result is whatever the failed decoding left in the variable. (After a fetch the same
  error stops the process.)
\<close>

theorem cache_hit_decode_error_returns:
  "(os_ReadAll (disk w) (pullsFilename repo page) = Some pullsData \<and> snd (unmarshalPulls L pullsData) \<longrightarrow>
      fst (loadPulls L repo page w) = Inr (fst (unmarshalPulls L pullsData)))
   \<and> (os_ReadAll (disk w) (eventsFilename repo issueNumber) = Some eventsData
        \<and> snd (unmarshalEvents L eventsData) \<longrightarrow>
      fst (loadEvents L repo issueNumber w) = Inr (fst (unmarshalEvents L eventsData)))
   \<and> (os_ReadAll (disk w) (commitFilename repo sha) = Some commitData
        \<and> snd (unmarshalCommit L commitData) \<longrightarrow>
      fst (loadCommit L repo sha w) = Inr (fst (unmarshalCommit L commitData)))"
  by (simp add: loadPulls_hit loadEvents_hit loadCommit_hit)

theorem cache_hit_decode_error_returns_witness:
  "os_ReadAll (disk corruptCacheWorld) (pullsFilename ''octo/demo'' 1) = Some ''{''
   \<and> snd (unmarshalPulls demoLib ''{'')
   \<and> fst (loadPulls demoLib ''octo/demo'' 1 corruptCacheWorld) = Inr []
   \<and> os_ReadAll (disk corruptCacheWorld) (eventsFilename ''octo/demo'' 4) = Some ''{''
   \<and> snd (unmarshalEvents demoLib ''{'')
   \<and> fst (loadEvents demoLib ''octo/demo'' 4 corruptCacheWorld) = Inr []
   \<and> os_ReadAll (disk corruptCacheWorld) (commitFilename ''octo/demo'' ''abc'') = Some ''{''
   \<and> snd (unmarshalCommit demoLib ''{'')
   \<and> fst (loadCommit demoLib ''octo/demo'' ''abc'' corruptCacheWorld) = Inr \<lparr>Author = \<lparr>Login = []\<rparr>\<rparr>"
proof -
  have p: "os_ReadAll (disk corruptCacheWorld) (pullsFilename ''octo/demo'' 1) = Some ''{''"
    by code_simp
  have e: "os_ReadAll (disk corruptCacheWorld) (eventsFilename ''octo/demo'' 4) = Some ''{''"
    by code_simp
  have c: "os_ReadAll (disk corruptCacheWorld) (commitFilename ''octo/demo'' ''abc'') = Some ''{''"
    by code_simp
  from cache_hit_decode_error_returns[of corruptCacheWorld "''octo/demo''" 1 "''{''" demoLib
      4 "''{''" "''abc''" "''{''"] p e c
  show ?thesis
    by (simp add: demoLib_def)
qed

text \<open>The same bytes, when they come from the network, stop the process.\<close>

lemma loadPulls_fetch_decode_error:
  assumes "os_ReadAll (disk w) (pullsFilename repo page) = None"
    and "fst (httpGet (pullsUrl repo page)
           (emit (Printf (cacheMiss (pullsUrl repo page))) (emit (Open (pullsFilename repo page)) w)))
         = Inr data"
    and "fst (writeCache (pullsFilename repo page) data
           (snd (httpGet (pullsUrl repo page)
             (emit (Printf (cacheMiss (pullsUrl repo page))) (emit (Open (pullsFilename repo page)) w)))))
         = Inr ()"
    and "snd (unmarshalPulls L data)"
  shows "fst (loadPulls L repo page w) = Inl JSONUnmarshallingFailed"
  using assms
  by (auto simp: loadPulls_def readCache_def Let_def split: prod.splits sum.splits)

section \<open>How the trace grows\<close>

lemma grown_refl: "grown P w w"
  by (simp add: grown_def)

lemma grown_emit: "P e \<Longrightarrow> grown P w (emit e w)"
  by (simp add: grown_def emit_def)

lemma grown_trans: "grown P w w1 \<Longrightarrow> grown P w1 w2 \<Longrightarrow> grown P w w2"
  by (auto simp: grown_def)

lemma grown_mono: "grown P w w' \<Longrightarrow> (\<And>e. P e \<Longrightarrow> Q e) \<Longrightarrow> grown Q w w'"
  by (auto simp: grown_def)

lemma grown_disk: "grown P w w' \<Longrightarrow> grown P w (w'\<lparr>disk := d\<rparr>)"
  by (simp add: grown_def)

lemma grown_since: "grown P w w' \<Longrightarrow> \<forall>e\<in>set (since (length (trace w)) w'). P e"
  by (auto simp: grown_def since_def)

lemma grown_readCache: "P (Open path) \<Longrightarrow> grown P w (snd (readCache path w))"
  by (simp add: readCache_def grown_emit)

lemma grown_httpGet: "P (Get url) \<Longrightarrow> P (Sleep 5000) \<Longrightarrow> grown P w (snd (httpGet url w))"
  by (auto simp: httpGet_def Let_def grown_def emit_def split: response.splits)

lemma grown_writeCache:
  "(\<And>d. P (MkdirAll d)) \<Longrightarrow> P (WriteFile path data) \<Longrightarrow> grown P w (snd (writeCache path data w))"
  by (auto simp: writeCache_def Let_def grown_def emit_def split: sum.splits option.splits)

lemma grown_fetch:
  assumes "P (Open file)" "P (Printf (cacheMiss url))" "P (Get url)" "P (Sleep 5000)"
    "\<And>d. P (MkdirAll d)" "\<And>d. P (WriteFile file d)"
  shows "grown P w (snd (httpGet url (emit (Printf (cacheMiss url)) (emit (Open file) w))))
       \<and> (\<forall>body. grown P w (snd (writeCache file body
             (snd (httpGet url (emit (Printf (cacheMiss url)) (emit (Open file) w)))))))"
proof -
  let ?w2 = "emit (Printf (cacheMiss url)) (emit (Open file) w)"
  have a: "grown P w ?w2"
    using assms(1,2) by (blast intro: grown_trans grown_emit)
  have b: "grown P ?w2 (snd (httpGet url ?w2))"
    using assms(3,4) by (rule grown_httpGet)
  have c: "grown P (snd (httpGet url ?w2)) (snd (writeCache file body (snd (httpGet url ?w2))))" for body
    using assms(5,6) by (rule grown_writeCache)
  from a b c show ?thesis
    by (blast intro: grown_trans)
qed

lemma grown_loadPulls:
  assumes "P (Open (pullsFilename repo page))" "P (Printf (cacheMiss (pullsUrl repo page)))"
    "P (Get (pullsUrl repo page))" "P (Sleep 5000)"
    "\<And>d. P (MkdirAll d)" "\<And>d. P (WriteFile (pullsFilename repo page) d)"
  shows "grown P w (snd (loadPulls L repo page w))"
proof (cases "os_ReadAll (disk w) (pullsFilename repo page)")
  case (Some data)
  then show ?thesis
    using assms(1) by (simp add: loadPulls_def readCache_def grown_emit)
next
  case None
  let ?w2 = "emit (Printf (cacheMiss (pullsUrl repo page))) (emit (Open (pullsFilename repo page)) w)"
  obtain r3 w3 where g: "httpGet (pullsUrl repo page) ?w2 = (r3, w3)"
    by (cases "httpGet (pullsUrl repo page) ?w2")
  from grown_fetch[of P, OF assms, of w] g have q3: "grown P w w3"
    and q4: "\<And>body. grown P w (snd (writeCache (pullsFilename repo page) body w3))"
    by simp_all
  show ?thesis
  proof (cases r3)
    case (Inl e)
    with None g q3 show ?thesis
      by (simp add: loadPulls_def readCache_def)
  next
    case (Inr body)
    obtain r4 w4 where wc: "writeCache (pullsFilename repo page) body w3 = (r4, w4)"
      by (cases "writeCache (pullsFilename repo page) body w3")
    with q4[of body] have "grown P w w4"
      by simp
    with None g Inr wc show ?thesis
      by (cases r4) (simp_all add: loadPulls_def readCache_def)
  qed
qed

lemma grown_loadEvents:
  assumes "P (Open (eventsFilename repo n))" "P (Printf (cacheMiss (eventsUrl repo n)))"
    "P (Get (eventsUrl repo n))" "P (Sleep 5000)"
    "\<And>d. P (MkdirAll d)" "\<And>d. P (WriteFile (eventsFilename repo n) d)"
  shows "grown P w (snd (loadEvents L repo n w))"
proof (cases "os_ReadAll (disk w) (eventsFilename repo n)")
  case (Some data)
  then show ?thesis
    using assms(1) by (simp add: loadEvents_def readCache_def grown_emit)
next
  case None
  let ?w2 = "emit (Printf (cacheMiss (eventsUrl repo n))) (emit (Open (eventsFilename repo n)) w)"
  obtain r3 w3 where g: "httpGet (eventsUrl repo n) ?w2 = (r3, w3)"
    by (cases "httpGet (eventsUrl repo n) ?w2")
  from grown_fetch[of P, OF assms, of w] g have q3: "grown P w w3"
    and q4: "\<And>body. grown P w (snd (writeCache (eventsFilename repo n) body w3))"
    by simp_all
  show ?thesis
  proof (cases r3)
    case (Inl e)
    with None g q3 show ?thesis
      by (simp add: loadEvents_def readCache_def)
  next
    case (Inr body)
    obtain r4 w4 where wc: "writeCache (eventsFilename repo n) body w3 = (r4, w4)"
      by (cases "writeCache (eventsFilename repo n) body w3")
    with q4[of body] have "grown P w w4"
      by simp
    with None g Inr wc show ?thesis
      by (cases r4) (simp_all add: loadEvents_def readCache_def)
  qed
qed

lemma quiet_loadPulls: "grown (\<lambda>e. \<not> isExecute e) w (snd (loadPulls L repo page w))"
  by (rule grown_loadPulls) simp_all

lemma quiet_classify: "grown (\<lambda>e. \<not> isExecute e) w (snd (classify L repo p w))"
proof -
  have "grown (\<lambda>e. \<not> isExecute e) w (snd (loadEvents L repo (Number p) w))"
    by (rule grown_loadEvents) simp_all
  then show ?thesis
    by (auto simp: classify_def whoMerged_def grown_refl split: prod.splits sum.splits)
qed

lemma quiet_scanPage: "grown (\<lambda>e. \<not> isExecute e) w (snd (scanPage L repo ps a w))"
proof (induction ps arbitrary: a w)
  case Nil
  then show ?case by (simp add: grown_refl)
next
  case (Cons p ps)
  show ?case
  proof (cases "parseTime L p")
    case (Inl e)
    then show ?thesis by (simp add: grown_refl)
  next
    case (Inr ts)
    let ?p = "p\<lparr>Timestamp := Format ts\<rparr>"
    obtain r w1 where c: "classify L repo ?p w = (r, w1)"
      by (cases "classify L repo ?p w")
    with quiet_classify[of w L repo ?p] have q: "grown (\<lambda>e. \<not> isExecute e) w w1"
      by simp
    show ?thesis
    proof (cases r)
      case (Inl e)
      with Inr c q Cons.IH show ?thesis
        by (simp add: grown_refl)
    next
      case r: (Inr t)
      from Cons.IH[where a = "tally t ?p a" and w = w1] q
      have "grown (\<lambda>e. \<not> isExecute e) w (snd (scanPage L repo ps (tally t ?p a) w1))"
        by (rule grown_trans[rotated])
      with Inr c r Cons.IH show ?thesis
        by (simp add: grown_refl)
    qed
  qed
qed

lemma quiet_pageLoop:
  assumes "pageLoop L repo page a w = Some r"
  shows "grown (\<lambda>e. \<not> isExecute e) w (snd r)"
  using assms
proof (rule pageLoop.raw_induct[rotated,
        where P = "\<lambda>L repo page a w r. grown (\<lambda>e. \<not> isExecute e) w (snd r)"])
  fix f L repo page a w r
  assume IH: "\<And>L repo page a w r. f L repo page a w = Some r \<Longrightarrow> grown (\<lambda>e. \<not> isExecute e) w (snd r)"
    and step: "(case loadPulls L repo page w of (Inl e, w1) \<Rightarrow> Some (Inl e, w1)
      | (Inr pagePulls, w1) \<Rightarrow>
          if length pagePulls = 0 then Some (Inr a, w1)
          else (case scanPage L repo (sort_Sort pagePulls) a w1 of
                  (Inl e, w2) \<Rightarrow> Some (Inl e, w2)
                | (Inr (done, a'), w2) \<Rightarrow>
                    if done then Some (Inr a', w2)
                    else f L repo (page + 1) a' w2)) = Some r"
  obtain r1 w1 where l: "loadPulls L repo page w = (r1, w1)"
    by (cases "loadPulls L repo page w")
  with quiet_loadPulls[of w L repo page] have q1: "grown (\<lambda>e. \<not> isExecute e) w w1"
    by simp
  show "grown (\<lambda>e. \<not> isExecute e) w (snd r)"
  proof (cases r1)
    case (Inl e)
    with step l q1 show ?thesis by auto
  next
    case (Inr pagePulls)
    show ?thesis
    proof (cases "pagePulls = []")
      case True
      with step l Inr q1 show ?thesis by auto
    next
      case False
      obtain r2 w2 where s: "scanPage L repo (sort_Sort pagePulls) a w1 = (r2, w2)"
        by (cases "scanPage L repo (sort_Sort pagePulls) a w1")
      with quiet_scanPage[of w1 L repo "sort_Sort pagePulls" a]
      have "grown (\<lambda>e. \<not> isExecute e) w1 w2"
        by simp
      with q1 have q2: "grown (\<lambda>e. \<not> isExecute e) w w2"
        by (rule grown_trans)
      show ?thesis
      proof (cases r2)
        case (Inl e)
        with step l Inr False s q2 show ?thesis by auto
      next
        case r2: (Inr da)
        obtain d a' where da: "da = (d, a')"
          by (cases da)
        show ?thesis
        proof (cases d)
          case True
          with step l Inr False s r2 da q2 show ?thesis by auto
        next
          case d: False
          with step l Inr False s r2 da have "f L repo (page + 1) a' w2 = Some r"
            by simp
          from IH[OF this] q2 show ?thesis
            by (rule grown_trans[rotated])
        qed
      qed
    qed
  qed
qed

section \<open>File names and URLs tell pages apart\<close>

lemma digit_inj:
  assumes "a < 10" and "b < 10" and "''0123456789'' ! a = ''0123456789'' ! b"
  shows "a = b"
proof -
  have d: "distinct ''0123456789''"
    by simp
  have l: "length ''0123456789'' = 10"
    by simp
  from nth_eq_iff_index_eq[OF d, of a b] assms l show ?thesis
    by simp
qed

lemma decimal_not_Nil: "decimal n \<noteq> []"
  by (subst decimal.simps) simp

lemma decimal_inj: "decimal n = decimal m \<Longrightarrow> n = m"
proof (induction n arbitrary: m rule: decimal.induct)
  case (1 n)
  show ?case
  proof (cases "n < 10")
    case True
    then have dn: "decimal n = [''0123456789'' ! n]"
      by (subst decimal.simps) simp
    show ?thesis
    proof (cases "m < 10")
      case m: True
      then have "decimal m = [''0123456789'' ! m]"
        by (subst decimal.simps) simp
      with dn "1.prems" True m show ?thesis
        by (auto dest: digit_inj)
    next
      case m: False
      then have "decimal m = decimal (m div 10) @ [''0123456789'' ! (m mod 10)]"
        by (subst decimal.simps) simp
      with dn "1.prems" decimal_not_Nil[of "m div 10"] show ?thesis
        by (cases "decimal (m div 10)") auto
    qed
  next
    case False
    then have dn: "decimal n = decimal (n div 10) @ [''0123456789'' ! (n mod 10)]"
      by (subst decimal.simps) simp
    show ?thesis
    proof (cases "m < 10")
      case m: True
      then have "decimal m = [''0123456789'' ! m]"
        by (subst decimal.simps) simp
      with dn "1.prems" decimal_not_Nil[of "n div 10"] show ?thesis
        by (cases "decimal (n div 10)") auto
    next
      case m: False
      then have "decimal m = decimal (m div 10) @ [''0123456789'' ! (m mod 10)]"
        by (subst decimal.simps) simp
      with dn "1.prems" have e1: "decimal (n div 10) = decimal (m div 10)"
        and e2: "''0123456789'' ! (n mod 10) = ''0123456789'' ! (m mod 10)"
        by auto
      from "1.IH"[OF False e1] have q: "n div 10 = m div 10" .
      from digit_inj[OF _ _ e2] have r: "n mod 10 = m mod 10"
        by simp
      from q r show ?thesis
        by (metis div_mult_mod_eq)
    qed
  qed
qed

lemma decimal_no_minus: "CHR ''-'' \<notin> set (decimal n)"
proof (induction n rule: decimal.induct)
  case (1 n)
  have d: "''0123456789'' ! k \<noteq> CHR ''-''" if "k < 10" for k :: nat
  proof -
    from that have "''0123456789'' ! k \<in> set ''0123456789''"
      by (intro nth_mem) simp
    then show ?thesis by auto
  qed
  show ?case
  proof (cases "n < 10")
    case True
    then show ?thesis
      using d[of n] by (subst decimal.simps) auto
  next
    case False
    then show ?thesis
      using d[of "n mod 10"] "1.IH" by (subst decimal.simps) auto
  qed
qed

lemma fmt_d_inj: "fmt_d i = fmt_d j \<Longrightarrow> i = j"
proof -
  assume e: "fmt_d i = fmt_d j"
  have no_sign: "CHR ''-'' # xs \<noteq> decimal n" for xs n
    using decimal_no_minus[of n] by (metis list.set_intros(1))
  show "i = j"
  proof (cases "i < 0")
    case True
    show ?thesis
    proof (cases "j < 0")
      case j: True
      with True e have "decimal (nat (- i)) = decimal (nat (- j))"
        by (simp add: fmt_d_def)
      then have "nat (- i) = nat (- j)"
        by (rule decimal_inj)
      with True j show ?thesis by simp
    next
      case j: False
      with True e no_sign show ?thesis
        by (simp add: fmt_d_def)
    qed
  next
    case False
    show ?thesis
    proof (cases "j < 0")
      case j: True
      with False e no_sign[of "decimal (nat (- j))" "nat i"] show ?thesis
        by (simp add: fmt_d_def)
    next
      case j: False
      with False e have "decimal (nat i) = decimal (nat j)"
        by (simp add: fmt_d_def)
      then have "nat i = nat j"
        by (rule decimal_inj)
      with False j show ?thesis by simp
    qed
  qed
qed

lemma pullsFilename_inj: "pullsFilename repo p = pullsFilename repo q \<Longrightarrow> p = q"
  by (simp add: pullsFilename_def fmt_d_inj)

lemma pullsUrl_inj: "pullsUrl repo p = pullsUrl repo q \<Longrightarrow> p = q"
  by (simp add: pullsUrl_def fmt_d_inj)

lemma loadPulls_leaves_other_pages:
  assumes "q \<noteq> page"
  shows "Open (pullsFilename repo q) \<notin> set (since (length (trace w)) (snd (loadPulls L repo page w)))
       \<and> Get (pullsUrl repo q) \<notin> set (since (length (trace w)) (snd (loadPulls L repo page w)))"
proof -
  let ?P = "\<lambda>e. e \<noteq> Open (pullsFilename repo q) \<and> e \<noteq> Get (pullsUrl repo q)"
  have "grown ?P w (snd (loadPulls L repo page w))"
    using assms by (intro grown_loadPulls) (auto dest: pullsFilename_inj pullsUrl_inj)
  from grown_since[OF this] show ?thesis
    by blast
qed

section \<open>The pagination driver\<close>

lemma pageLoop_empty_page:
  "loadPulls L repo n w = (Inr [], w1) \<Longrightarrow> pageLoop L repo n a w = Some (Inr a, w1)"
  by (subst pageLoop.simps) simp

text \<open>
  C7. When loading page \<open>n\<close> gives an empty list, the traversal of the repository ends
  there: it returns the local variables as they are, in the world that the loading of
  page \<open>n\<close> left, and among the effects since the loading began there is neither the
  opening of the cache file of page \<open>n + 1\<close> nor a request for its URL.
\<close>

theorem empty_page_stops:
  assumes "fst (loadPulls L repo n w) = Inr []"
  shows "pageLoop L repo n a w = Some (Inr a, snd (loadPulls L repo n w))
       \<and> Open (pullsFilename repo (n + 1)) \<notin> set (since (length (trace w)) (snd (loadPulls L repo n w)))
       \<and> Get (pullsUrl repo (n + 1)) \<notin> set (since (length (trace w)) (snd (loadPulls L repo n w)))"
  using pageLoop_empty_page[OF pair_with_snd[OF assms]] loadPulls_leaves_other_pages[of "n + 1" n]
  by simp

theorem empty_page_stops_witness:
  "fst (loadPulls demoLib ''octo/demo'' 2 emptyCacheWorld) = Inr []
   \<and> pageLoop demoLib ''octo/demo'' 2 \<lparr>pulls = [], authored = 0, merged = 0\<rparr> emptyCacheWorld
       = Some (Inr \<lparr>pulls = [], authored = 0, merged = 0\<rparr>,
               snd (loadPulls demoLib ''octo/demo'' 2 emptyCacheWorld))
   \<and> Get (pullsUrl ''octo/demo'' (2 + 1))
       \<notin> set (since (length (trace emptyCacheWorld)) (snd (loadPulls demoLib ''octo/demo'' 2 emptyCacheWorld)))"
proof -
  have e: "fst (loadPulls demoLib ''octo/demo'' 2 emptyCacheWorld) = Inr []"
    by code_simp
  from empty_page_stops[OF e] e show ?thesis
    by simp
qed

lemma scanPage_append:
  "scanPage L repo (xs @ ys) a w =
     (case scanPage L repo xs a w of
        (Inr (False, a1), w1) \<Rightarrow> scanPage L repo ys a1 w1
      | r \<Rightarrow> r)"
proof (induction xs arbitrary: a w)
  case Nil
  then show ?case by simp
next
  case (Cons p ps)
  then show ?case
    by (auto split: sum.splits if_splits prod.splits bool.splits)
qed

lemma pageLoop_cutoff:
  assumes "loadPulls L repo page w = (Inr pagePulls, w1)" "pagePulls \<noteq> []"
    "sort_Sort pagePulls = before @ p # after"
    "scanPage L repo before a w1 = (Inr (False, a2), w2)"
    "parseTime L p = Inr ts" "Year ts < 2021"
  shows "pageLoop L repo page a w = Some (Inr a2, w2)"
  using assms
  by (subst pageLoop.simps) (simp add: scanPage_append)

text \<open>
  C3. Let a page be loaded and sorted, let the scan of the pulls before \<open>p\<close> reach \<open>p\<close>
  with the local variables \<open>a2\<close> in the world \<open>w2\<close>, and let the year of \<open>p\<close> be below
  2021. Then the traversal of the repository ends with exactly \<open>a2\<close> and \<open>w2\<close>: neither
  \<open>p\<close> nor a later pull of the page nor a later page adds to the result, and nothing is
  loaded any more. The inner loop on its own: a pull of a year below 2021 ends it with
  \<open>done\<close> set, a pull of a year above 2021 is passed over and the scan goes on.
\<close>

theorem year_cutoff:
  "(loadPulls L repo page w = (Inr pagePulls, w1) \<and> pagePulls \<noteq> []
      \<and> sort_Sort pagePulls = before @ p # after
      \<and> scanPage L repo before a w1 = (Inr (False, a2), w2)
      \<and> parseTime L p = Inr ts \<and> Year ts < 2021
    \<longrightarrow> pageLoop L repo page a w = Some (Inr a2, w2))
   \<and> (parseTime L q = Inr tq \<and> Year tq < 2021
    \<longrightarrow> scanPage L repo (q # qs) b v = (Inr (True, b), v))
   \<and> (parseTime L q = Inr tq \<and> Year tq > 2021
    \<longrightarrow> scanPage L repo (q # qs) b v = scanPage L repo qs b v)"
  using pageLoop_cutoff[of L repo page w pagePulls w1 before p after a a2 w2 ts]
  by simp

theorem year_cutoff_witness:
  "fst (loadPulls demoLib ''octo/old'' 1 emptyCacheWorld) = Inr [demoPull3, demoPull9, demoPull2, demoPull5]
   \<and> sort_Sort [demoPull3, demoPull9, demoPull2, demoPull5] = [demoPull9, demoPull5] @ demoPull3 # [demoPull2]
   \<and> fst (scanPage demoLib ''octo/old'' [demoPull9, demoPull5] \<lparr>pulls = [], authored = 0, merged = 0\<rparr>
            (snd (loadPulls demoLib ''octo/old'' 1 emptyCacheWorld)))
       = Inr (False, \<lparr>pulls = [demoPull5\<lparr>MyContribution := ''authored'', Timestamp := ''2021-03-01''\<rparr>],
                      authored = 1, merged = 0\<rparr>)
   \<and> parseTime demoLib demoPull3 = Inr \<lparr>Year = 2020, Month = 12, Day = 31\<rparr>
   \<and> pageLoop demoLib ''octo/old'' 1 \<lparr>pulls = [], authored = 0, merged = 0\<rparr> emptyCacheWorld
       = Some (Inr \<lparr>pulls = [demoPull5\<lparr>MyContribution := ''authored'', Timestamp := ''2021-03-01''\<rparr>],
                    authored = 1, merged = 0\<rparr>,
               snd (scanPage demoLib ''octo/old'' [demoPull9, demoPull5] \<lparr>pulls = [], authored = 0, merged = 0\<rparr>
                      (snd (loadPulls demoLib ''octo/old'' 1 emptyCacheWorld))))
   \<and> parseTime demoLib demoPull9 = Inr \<lparr>Year = 2022, Month = 1, Day = 15\<rparr>
   \<and> scanPage demoLib ''octo/old'' (demoPull9 # [demoPull5]) \<lparr>pulls = [], authored = 0, merged = 0\<rparr> emptyCacheWorld
       = scanPage demoLib ''octo/old'' [demoPull5] \<lparr>pulls = [], authored = 0, merged = 0\<rparr> emptyCacheWorld
   \<and> scanPage demoLib ''octo/old'' (demoPull3 # [demoPull2]) \<lparr>pulls = [], authored = 0, merged = 0\<rparr> emptyCacheWorld
       = (Inr (True, \<lparr>pulls = [], authored = 0, merged = 0\<rparr>), emptyCacheWorld)"
proof -
  let ?a = "\<lparr>pulls = [], authored = 0, merged = 0\<rparr>"
  let ?a2 = "\<lparr>pulls = [demoPull5\<lparr>MyContribution := ''authored'', Timestamp := ''2021-03-01''\<rparr>],
              authored = 1, merged = 0\<rparr>"
  let ?w1 = "snd (loadPulls demoLib ''octo/old'' 1 emptyCacheWorld)"
  let ?w2 = "snd (scanPage demoLib ''octo/old'' [demoPull9, demoPull5] ?a ?w1)"
  have l: "fst (loadPulls demoLib ''octo/old'' 1 emptyCacheWorld) = Inr [demoPull3, demoPull9, demoPull2, demoPull5]"
    by code_simp
  have s: "sort_Sort [demoPull3, demoPull9, demoPull2, demoPull5] = [demoPull9, demoPull5] @ demoPull3 # [demoPull2]"
    by code_simp
  have t3: "parseTime demoLib demoPull3 = Inr \<lparr>Year = 2020, Month = 12, Day = 31\<rparr>"
    by code_simp
  have t9: "parseTime demoLib demoPull9 = Inr \<lparr>Year = 2022, Month = 1, Day = 15\<rparr>"
    by code_simp
  have b: "fst (scanPage demoLib ''octo/old'' [demoPull9, demoPull5] ?a ?w1) = Inr (False, ?a2)"
    by code_simp
  from year_cutoff[of demoLib "''octo/old''" 1 emptyCacheWorld "[demoPull3, demoPull9, demoPull2, demoPull5]"
      ?w1 "[demoPull9, demoPull5]" demoPull3 "[demoPull2]" ?a ?a2 ?w2 "\<lparr>Year = 2020, Month = 12, Day = 31\<rparr>"
      demoPull3 "\<lparr>Year = 2020, Month = 12, Day = 31\<rparr>" "[demoPull2]" ?a emptyCacheWorld]
    year_cutoff[of demoLib "''octo/old''" 1 emptyCacheWorld "[demoPull3, demoPull9, demoPull2, demoPull5]"
      ?w1 "[demoPull9, demoPull5]" demoPull3 "[demoPull2]" ?a ?a2 ?w2 "\<lparr>Year = 2020, Month = 12, Day = 31\<rparr>"
      demoPull9 "\<lparr>Year = 2022, Month = 1, Day = 15\<rparr>" "[demoPull5]" ?a emptyCacheWorld]
    pair_with_snd[OF l] pair_with_snd[OF b] l s t3 t9 b
  show ?thesis
    by simp
qed

section \<open>The contribution classifier\<close>

lemma firstMerged_find:
  "firstMerged events =
     (case find (\<lambda>e. Event e = ''merged'') events of
        None \<Rightarrow> \<lparr>Login = ''nobody''\<rparr>
      | Some e \<Rightarrow> Actor e)"
  by (induction events) auto

text \<open>
  C2. A pull request whose author is the target user is tagged as authored, whatever its
  state and its events, and nothing is loaded for it. Otherwise, when its state is not
  \<open>closed\<close>, it gets no tag, again without loading anything. Otherwise the events are
  loaded; \<open>whoMerged\<close> returns the actor of the first event of type \<open>merged\<close>, or the
  user \<open>nobody\<close> when there is none, and the tag is merged when the login of that actor is
  the target user and no tag otherwise.
\<close>

theorem classify_by_author_state_merger:
  "(Login (User p) = ''mpenkov'' \<longrightarrow> classify L repo p w = (Inr authored_tag, w))
   \<and> (Login (User p) \<noteq> ''mpenkov'' \<and> State p \<noteq> ''closed'' \<longrightarrow> classify L repo p w = (Inr no_tag, w))
   \<and> (Login (User p) \<noteq> ''mpenkov'' \<and> State p = ''closed''
        \<and> fst (loadEvents L repo (Number p) w) = Inr events \<longrightarrow>
      fst (whoMerged L repo (Number p) w)
        = Inr (case find (\<lambda>e. Event e = ''merged'') events of
                 None \<Rightarrow> \<lparr>Login = ''nobody''\<rparr>
               | Some e \<Rightarrow> Actor e)
      \<and> fst (classify L repo p w)
        = Inr (if Login (case find (\<lambda>e. Event e = ''merged'') events of
                           None \<Rightarrow> \<lparr>Login = ''nobody''\<rparr>
                         | Some e \<Rightarrow> Actor e) = ''mpenkov''
               then merged_tag else no_tag))"
  by (auto simp: classify_def whoMerged_def firstMerged_find split: prod.splits sum.splits)

theorem classify_by_author_state_merger_witness:
  "Login (User demoPull5) = ''mpenkov''
   \<and> classify demoLib ''octo/demo'' demoPull5 filledCacheWorld = (Inr authored_tag, filledCacheWorld)
   \<and> Login (User (demoPull4\<lparr>State := ''open''\<rparr>)) \<noteq> ''mpenkov''
   \<and> State (demoPull4\<lparr>State := ''open''\<rparr>) \<noteq> ''closed''
   \<and> classify demoLib ''octo/demo'' (demoPull4\<lparr>State := ''open''\<rparr>) filledCacheWorld
       = (Inr no_tag, filledCacheWorld)
   \<and> Login (User demoPull4) \<noteq> ''mpenkov'' \<and> State demoPull4 = ''closed''
   \<and> fst (loadEvents demoLib ''octo/demo'' (Number demoPull4) filledCacheWorld) = Inr demoEvents
   \<and> fst (whoMerged demoLib ''octo/demo'' (Number demoPull4) filledCacheWorld) = Inr \<lparr>Login = ''mpenkov''\<rparr>
   \<and> fst (classify demoLib ''octo/demo'' demoPull4 filledCacheWorld) = Inr merged_tag
   \<and> fst (loadEvents demoLib ''octo/demo'' (Number demoPull4) corruptCacheWorld) = Inr []
   \<and> fst (whoMerged demoLib ''octo/demo'' (Number demoPull4) corruptCacheWorld) = Inr \<lparr>Login = ''nobody''\<rparr>
   \<and> fst (classify demoLib ''octo/demo'' demoPull4 corruptCacheWorld) = Inr no_tag"
proof -
  have e: "fst (loadEvents demoLib ''octo/demo'' (Number demoPull4) filledCacheWorld) = Inr demoEvents"
    by code_simp
  have n: "fst (loadEvents demoLib ''octo/demo'' (Number demoPull4) corruptCacheWorld) = Inr []"
    by code_simp
  from classify_by_author_state_merger[of demoPull5 demoLib "''octo/demo''" filledCacheWorld demoEvents]
    classify_by_author_state_merger[of "demoPull4\<lparr>State := ''open''\<rparr>" demoLib "''octo/demo''"
      filledCacheWorld demoEvents]
    classify_by_author_state_merger[of demoPull4 demoLib "''octo/demo''" filledCacheWorld demoEvents]
    classify_by_author_state_merger[of demoPull4 demoLib "''octo/demo''" corruptCacheWorld "[]"]
    e n
  show ?thesis
    by (simp add: demoPull5_def demoPull4_def demoEvents_def)
qed

section \<open>Sorting a page\<close>

lemma place_snoc_less: "Number x > Number y \<Longrightarrow> place x (xs @ [y]) = place x xs @ [y]"
  by (induction xs) auto

lemma place_all_ge: "\<forall>z\<in>set xs. Number z \<ge> Number x \<Longrightarrow> place x xs = xs @ [x]"
  by (induction xs) auto

lemma set_place: "set (place x xs) = insert x (set xs)"
  by (induction xs) auto

lemma mset_place: "mset (place x xs) = add_mset x (mset xs)"
  by (induction xs) auto

lemma length_place: "length (place x xs) = Suc (length xs)"
  by (induction xs) auto

lemma descending_place: "descending xs \<Longrightarrow> descending (place x xs)"
  unfolding descending_def by (induction xs) (auto simp: set_place)

lemma insertDown_place:
  "j < length pl \<Longrightarrow> descending (take j pl) \<Longrightarrow>
   insertDown pl j = place (pl ! j) (take j pl) @ drop (Suc j) pl"
proof (induction j arbitrary: pl)
  case 0
  then show ?case by (cases pl) auto
next
  case (Suc j)
  let ?x = "pl ! Suc j" and ?y = "pl ! j"
  from Suc.prems have j: "j < length pl"
    by simp
  have tk: "take (Suc j) pl = take j pl @ [?y]"
    using j by (simp add: take_Suc_conv_app_nth)
  show ?case
  proof (cases "Number ?x > Number ?y")
    case True
    let ?pl' = "Swap pl (Suc j) j"
    have l: "j < length ?pl'"
      using j by (simp add: Swap_def)
    have t: "take j ?pl' = take j pl"
      by (simp add: Swap_def)
    have d: "descending (take j ?pl')"
      using Suc.prems(2) tk t by (simp add: descending_def sorted_wrt_append)
    have xj: "?pl' ! j = ?x"
      using j by (simp add: Swap_def)
    have dr: "drop (Suc j) ?pl' = ?y # drop (Suc (Suc j)) pl"
      using Suc.prems(1)
      by (simp add: Swap_def drop_update_swap Cons_nth_drop_Suc[symmetric] upd_conv_take_nth_drop)
    have "insertDown pl (Suc j) = insertDown ?pl' j"
      using True by (simp add: Less_def)
    also have "\<dots> = place ?x (take j pl) @ ?y # drop (Suc (Suc j)) pl"
      using Suc.IH[OF l d] xj t dr by simp
    also have "\<dots> = place ?x (take (Suc j) pl) @ drop (Suc (Suc j)) pl"
      using True by (simp add: tk place_snoc_less)
    finally show ?thesis .
  next
    case False
    have "\<forall>z\<in>set (take (Suc j) pl). Number z \<ge> Number ?x"
      using Suc.prems(2) False unfolding tk descending_def by (auto simp: sorted_wrt_append)
    then have "place ?x (take (Suc j) pl) = take (Suc j) pl @ [?x]"
      by (rule place_all_ge)
    moreover have "insertDown pl (Suc j) = pl"
      using False by (simp add: Less_def)
    moreover have "take (Suc j) pl @ ?x # drop (Suc (Suc j)) pl = pl"
      using Suc.prems(1) by (simp add: Cons_nth_drop_Suc)
    ultimately show ?thesis by simp
  qed
qed

lemma placeAll_snoc: "placeAll (xs @ [x]) = place x (placeAll xs)"
  by (simp add: placeAll_def)

lemma placeAll_Nil: "placeAll [] = []"
  by (simp add: placeAll_def)

lemma length_placeAll: "length (placeAll xs) = length xs"
  by (induction xs rule: rev_induct) (simp_all add: placeAll_snoc placeAll_Nil length_place)

lemma mset_placeAll: "mset (placeAll xs) = mset xs"
  by (induction xs rule: rev_induct) (simp_all add: placeAll_snoc placeAll_Nil mset_place)

lemma descending_placeAll: "descending (placeAll xs)"
  by (induction xs rule: rev_induct)
    (simp_all add: placeAll_snoc placeAll_Nil descending_place, simp add: descending_def)

lemma foldl_insertDown:
  "k < length pl \<Longrightarrow> foldl insertDown pl [1..<Suc k] = placeAll (take (Suc k) pl) @ drop (Suc k) pl"
proof (induction k)
  case 0
  then show ?case by (cases pl) (auto simp: placeAll_def)
next
  case (Suc k)
  let ?q = "placeAll (take (Suc k) pl) @ drop (Suc k) pl"
  from Suc.prems have k: "k < length pl"
    by simp
  have lq: "length (placeAll (take (Suc k) pl)) = Suc k"
    using Suc.prems by (simp add: length_placeAll)
  have "foldl insertDown pl [1..<Suc (Suc k)] = insertDown (foldl insertDown pl [1..<Suc k]) (Suc k)"
    by simp
  also have "\<dots> = insertDown ?q (Suc k)"
    using Suc.IH[OF k] by simp
  also have "\<dots> = place (?q ! Suc k) (take (Suc k) ?q) @ drop (Suc (Suc k)) ?q"
  proof (rule insertDown_place)
    show "Suc k < length ?q"
      using Suc.prems lq by simp
    show "descending (take (Suc k) ?q)"
      using lq by (simp add: descending_placeAll)
  qed
  also have "?q ! Suc k = pl ! Suc k"
    using lq Suc.prems by (simp add: nth_append)
  also have "take (Suc k) ?q = placeAll (take (Suc k) pl)"
    using lq by simp
  also have "drop (Suc (Suc k)) ?q = drop (Suc (Suc k)) pl"
    using lq by simp
  also have "place (pl ! Suc k) (placeAll (take (Suc k) pl)) = placeAll (take (Suc (Suc k)) pl)"
    using Suc.prems by (simp add: take_Suc_conv_app_nth[of "Suc k"] placeAll_snoc)
  finally show ?case .
qed

lemma sort_Sort_placeAll: "sort_Sort pl = placeAll pl"
proof (cases pl)
  case Nil
  then show ?thesis
    by (simp add: sort_Sort_def Len_def placeAll_def)
next
  case (Cons x xs)
  then have "length xs < length pl"
    by simp
  from foldl_insertDown[OF this] Cons show ?thesis
    by (simp add: sort_Sort_def Len_def)
qed

lemma pageLoop_nonempty_page:
  "loadPulls L repo page w = (Inr pl, w1) \<Longrightarrow> pl \<noteq> [] \<Longrightarrow>
   pageLoop L repo page a w =
     (case scanPage L repo (sort_Sort pl) a w1 of
        (Inl e, w2) \<Rightarrow> Some (Inl e, w2)
      | (Inr (done, a'), w2) \<Rightarrow> if done then Some (Inr a', w2) else pageLoop L repo (page + 1) a' w2)"
  by (subst pageLoop.simps) simp

lemma scanPage_reach:
  assumes "scanPage L repo before b v = (Inr (False, b1), v1)"
  shows "scanPage L repo (before @ p # after) b v =
     (case parseTime L p of
        Inl e \<Rightarrow> (Inl e, v1)
      | Inr ts \<Rightarrow>
          if Year ts > 2021 then scanPage L repo after b1 v1
          else if Year ts < 2021 then (Inr (True, b1), v1)
          else (case classify L repo (p\<lparr>Timestamp := Format ts\<rparr>) v1 of
                  (Inl e, v2) \<Rightarrow> (Inl e, v2)
                | (Inr c, v2) \<Rightarrow> scanPage L repo after (tally c (p\<lparr>Timestamp := Format ts\<rparr>) b1) v2))"
  using assms by (simp add: scanPage_append)

lemma tally_adds:
  "\<exists>xs. pulls (tally c p a) = pulls a @ xs \<and> (\<forall>q\<in>set xs. \<exists>m. q = p\<lparr>MyContribution := m\<rparr>)"
  by (cases c) auto

lemma scanPage_adds:
  "scanPage L repo ps a w = (Inr (d, a'), w') \<Longrightarrow>
   \<exists>added. pulls a' = pulls a @ added
     \<and> (\<forall>q\<in>set added. \<exists>p\<in>set ps. \<exists>ts m. q = p\<lparr>Timestamp := ts, MyContribution := m\<rparr>)
     \<and> (descending ps \<longrightarrow> descending added)"
proof (induction ps arbitrary: a w)
  case Nil
  then show ?case
    by (simp add: descending_def)
next
  case (Cons p ps)
  from Cons.prems obtain ts where ts: "parseTime L p = Inr ts"
    by (cases "parseTime L p") auto
  let ?p = "p\<lparr>Timestamp := Format ts\<rparr>"
  have tail: "\<exists>added. pulls a' = pulls a0 @ added
       \<and> (\<forall>q\<in>set added. \<exists>r\<in>set (p # ps). \<exists>ts m. q = r\<lparr>Timestamp := ts, MyContribution := m\<rparr>)
       \<and> (\<forall>q\<in>set added. \<exists>r\<in>set ps. Number q = Number r)
       \<and> (descending (p # ps) \<longrightarrow> descending added)"
    if "scanPage L repo ps a0 w0 = (Inr (d, a'), w')" for a0 w0
  proof -
    from Cons.IH[OF that] obtain added where
      e: "pulls a' = pulls a0 @ added"
      and m: "\<forall>q\<in>set added. \<exists>r\<in>set ps. \<exists>ts m. q = r\<lparr>Timestamp := ts, MyContribution := m\<rparr>"
      and d: "descending ps \<longrightarrow> descending added"
      by blast
    from m have n: "\<forall>q\<in>set added. \<exists>r\<in>set ps. Number q = Number r"
      by fastforce
    from m have m': "\<forall>q\<in>set added. \<exists>r\<in>set (p # ps). \<exists>ts m. q = r\<lparr>Timestamp := ts, MyContribution := m\<rparr>"
      by fastforce
    from d have "descending (p # ps) \<longrightarrow> descending added"
      by (simp add: descending_def)
    with e m' n show ?thesis
      by blast
  qed
  show ?case
  proof (cases "Year ts > 2021")
    case True
    with Cons.prems ts have "scanPage L repo ps a w = (Inr (d, a'), w')"
      by simp
    from tail[OF this] show ?thesis
      by blast
  next
    case False
    show ?thesis
    proof (cases "Year ts < 2021")
      case True
      with Cons.prems ts have "a' = a"
        by simp
      then show ?thesis
        by (simp add: descending_def)
    next
      case y: False
      obtain r w1 where c: "classify L repo ?p w = (r, w1)"
        by (cases "classify L repo ?p w")
      with Cons.prems ts False y obtain t where t: "r = Inr t"
        by (cases r) auto
      with Cons.prems ts False y c have s: "scanPage L repo ps (tally t ?p a) w1 = (Inr (d, a'), w')"
        by simp
      from tail[OF s] obtain added where
        e: "pulls a' = pulls (tally t ?p a) @ added"
        and m: "\<forall>q\<in>set added. \<exists>r\<in>set (p # ps). \<exists>ts m. q = r\<lparr>Timestamp := ts, MyContribution := m\<rparr>"
        and n: "\<forall>q\<in>set added. \<exists>r\<in>set ps. Number q = Number r"
        and d: "descending (p # ps) \<longrightarrow> descending added"
        by blast
      from tally_adds[of t ?p a] obtain xs where
        x: "pulls (tally t ?p a) = pulls a @ xs"
        and xm: "\<forall>q\<in>set xs. \<exists>m. q = ?p\<lparr>MyContribution := m\<rparr>"
        by blast
      from xm have xn: "\<forall>q\<in>set xs. Number q = Number p"
        by fastforce
      from xm have xm': "\<forall>q\<in>set xs. \<exists>r\<in>set (p # ps). \<exists>ts m. q = r\<lparr>Timestamp := ts, MyContribution := m\<rparr>"
        by fastforce
      have "descending (xs @ added)" if dp: "descending (p # ps)"
      proof -
        from dp have ge: "\<forall>r\<in>set ps. Number p \<ge> Number r"
          by (simp add: descending_def)
        from xn have "descending xs"
          unfolding descending_def by (simp add: sorted_wrt_iff_nth_less)
        moreover from d dp have "descending added"
          by simp
        moreover from xn n ge have "\<forall>q\<in>set xs. \<forall>q'\<in>set added. Number q \<ge> Number q'"
          by fastforce
        ultimately show ?thesis
          by (simp add: descending_def sorted_wrt_append)
      qed
      moreover from e x have "pulls a' = pulls a @ (xs @ added)"
        by simp
      moreover from m xm' have "\<forall>q\<in>set (xs @ added). \<exists>r\<in>set (p # ps). \<exists>ts m. q = r\<lparr>Timestamp := ts, MyContribution := m\<rparr>"
        by auto
      ultimately show ?thesis
        by blast
    qed
  qed
qed

lemma scanPage_sorted_adds:
  assumes "scanPage L repo (sort_Sort pl) b v = (Inr (d, b'), v')"
  shows "take (length (pulls b)) (pulls b') = pulls b
     \<and> (\<forall>i j. i < j \<and> j < length (pulls b') - length (pulls b) \<longrightarrow>
           Number (pulls b' ! (length (pulls b) + i)) \<ge> Number (pulls b' ! (length (pulls b) + j)))
     \<and> (\<forall>q\<in>set (drop (length (pulls b)) (pulls b')).
           \<exists>r\<in>set pl. \<exists>ts m. q = r\<lparr>Timestamp := ts, MyContribution := m\<rparr>)"
proof -
  have ds: "descending (sort_Sort pl)"
    by (simp add: sort_Sort_placeAll descending_placeAll)
  have st: "set (sort_Sort pl) = set pl"
    using mset_placeAll[of pl] by (metis sort_Sort_placeAll set_mset_mset)
  from scanPage_adds[OF assms] ds obtain added where
    e: "pulls b' = pulls b @ added"
    and m: "\<forall>q\<in>set added. \<exists>r\<in>set (sort_Sort pl). \<exists>ts m. q = r\<lparr>Timestamp := ts, MyContribution := m\<rparr>"
    and d: "descending added"
    by blast
  from d have "\<forall>i j. i < j \<and> j < length added \<longrightarrow> Number (added ! i) \<ge> Number (added ! j)"
    by (simp add: descending_def sorted_wrt_iff_nth_less)
  with e m st show ?thesis
    by simp
qed

text \<open>
  C8. \<open>sort.Sort\<close> leaves a permutation of the page in which every earlier pull has a
  number greater than or equal to that of every later one. The driver visits the pulls of
  a non-empty loaded page in exactly this order: the page loop runs the inner loop on the
  sorted page; a pull \<open>p\<close> of the sorted page is handled when the pulls before it have been
  handled without leaving the loop, in the local variables and the world that they left,
  and after it come the pulls behind it (unless its timestamp does not parse, its year is
  below 2021 or its events cannot be loaded, which end the loop); and the pulls that the
  inner loop appends are pulls of the page, with the timestamp and the contribution set,
  appended in descending order of their numbers.
\<close>

theorem sort_Sort_descending:
  "mset (sort_Sort pl) = mset pl
   \<and> (\<forall>i j. i < j \<and> j < length (sort_Sort pl) \<longrightarrow> Number (sort_Sort pl ! i) \<ge> Number (sort_Sort pl ! j))
   \<and> (loadPulls L repo page w = (Inr pl, w1) \<and> pl \<noteq> [] \<longrightarrow>
        pageLoop L repo page a w =
          (case scanPage L repo (sort_Sort pl) a w1 of
             (Inl e, w2) \<Rightarrow> Some (Inl e, w2)
           | (Inr (done, a'), w2) \<Rightarrow>
               if done then Some (Inr a', w2) else pageLoop L repo (page + 1) a' w2))
   \<and> (sort_Sort pl = before @ p # after \<and> scanPage L repo before b v = (Inr (False, b1), v1) \<longrightarrow>
        scanPage L repo (sort_Sort pl) b v =
          (case parseTime L p of
             Inl e \<Rightarrow> (Inl e, v1)
           | Inr ts \<Rightarrow>
               if Year ts > 2021 then scanPage L repo after b1 v1
               else if Year ts < 2021 then (Inr (True, b1), v1)
               else (case classify L repo (p\<lparr>Timestamp := Format ts\<rparr>) v1 of
                       (Inl e, v2) \<Rightarrow> (Inl e, v2)
                     | (Inr c, v2) \<Rightarrow>
                         scanPage L repo after (tally c (p\<lparr>Timestamp := Format ts\<rparr>) b1) v2)))
   \<and> (scanPage L repo (sort_Sort pl) b v = (Inr (d, b'), v') \<longrightarrow>
        take (length (pulls b)) (pulls b') = pulls b
        \<and> (\<forall>i j. i < j \<and> j < length (pulls b') - length (pulls b) \<longrightarrow>
              Number (pulls b' ! (length (pulls b) + i)) \<ge> Number (pulls b' ! (length (pulls b) + j)))
        \<and> (\<forall>q\<in>set (drop (length (pulls b)) (pulls b')).
              \<exists>r\<in>set pl. \<exists>ts m. q = r\<lparr>Timestamp := ts, MyContribution := m\<rparr>))"
proof -
  have "descending (sort_Sort pl)"
    by (simp add: sort_Sort_placeAll descending_placeAll)
  then have o: "\<forall>i j. i < j \<and> j < length (sort_Sort pl) \<longrightarrow> Number (sort_Sort pl ! i) \<ge> Number (sort_Sort pl ! j)"
    by (simp add: descending_def sorted_wrt_iff_nth_less)
  have m: "mset (sort_Sort pl) = mset pl"
    by (simp add: sort_Sort_placeAll mset_placeAll)
  have r: "sort_Sort pl = before @ p # after \<and> scanPage L repo before b v = (Inr (False, b1), v1) \<longrightarrow>
        scanPage L repo (sort_Sort pl) b v =
          (case parseTime L p of
             Inl e \<Rightarrow> (Inl e, v1)
           | Inr ts \<Rightarrow>
               if Year ts > 2021 then scanPage L repo after b1 v1
               else if Year ts < 2021 then (Inr (True, b1), v1)
               else (case classify L repo (p\<lparr>Timestamp := Format ts\<rparr>) v1 of
                       (Inl e, v2) \<Rightarrow> (Inl e, v2)
                     | (Inr c, v2) \<Rightarrow>
                         scanPage L repo after (tally c (p\<lparr>Timestamp := Format ts\<rparr>) b1) v2))"
    using scanPage_reach[of L repo before b v b1 v1 p after] by simp
  from o m r show ?thesis
    using pageLoop_nonempty_page[of L repo page w pl w1 a]
      scanPage_sorted_adds[of L repo pl b v d b' v'] by blast
qed

theorem sort_Sort_descending_witness:
  "sort_Sort [demoPull4, demoPull5] = [demoPull5] @ demoPull4 # []
   \<and> mset (sort_Sort [demoPull4, demoPull5]) = mset [demoPull4, demoPull5]
   \<and> (0::nat) < 1 \<and> 1 < length (sort_Sort [demoPull4, demoPull5])
   \<and> Number (sort_Sort [demoPull4, demoPull5] ! 0) \<ge> Number (sort_Sort [demoPull4, demoPull5] ! 1)
   \<and> fst (loadPulls demoLib ''octo/demo'' 1 filledCacheWorld) = Inr [demoPull4, demoPull5]
   \<and> [demoPull4, demoPull5] \<noteq> []
   \<and> pageLoop demoLib ''octo/demo'' 1 \<lparr>pulls = [], authored = 0, merged = 0\<rparr> filledCacheWorld =
       (case scanPage demoLib ''octo/demo'' (sort_Sort [demoPull4, demoPull5])
               \<lparr>pulls = [], authored = 0, merged = 0\<rparr> (snd (loadPulls demoLib ''octo/demo'' 1 filledCacheWorld)) of
          (Inl e, w2) \<Rightarrow> Some (Inl e, w2)
        | (Inr (done, a'), w2) \<Rightarrow>
            if done then Some (Inr a', w2) else pageLoop demoLib ''octo/demo'' (1 + 1) a' w2)
   \<and> fst (scanPage demoLib ''octo/demo'' [demoPull5] \<lparr>pulls = [], authored = 0, merged = 0\<rparr> filledCacheWorld)
       = Inr (False, \<lparr>pulls = [demoPull5\<lparr>MyContribution := ''authored'', Timestamp := ''2021-03-01''\<rparr>],
                      authored = 1, merged = 0\<rparr>)
   \<and> scanPage demoLib ''octo/demo'' (sort_Sort [demoPull4, demoPull5])
         \<lparr>pulls = [], authored = 0, merged = 0\<rparr> filledCacheWorld =
       (case parseTime demoLib demoPull4 of
          Inl e \<Rightarrow> (Inl e, snd (scanPage demoLib ''octo/demo'' [demoPull5]
                                   \<lparr>pulls = [], authored = 0, merged = 0\<rparr> filledCacheWorld))
        | Inr ts \<Rightarrow>
            if Year ts > 2021
            then scanPage demoLib ''octo/demo'' []
                   \<lparr>pulls = [demoPull5\<lparr>MyContribution := ''authored'', Timestamp := ''2021-03-01''\<rparr>],
                      authored = 1, merged = 0\<rparr>
                   (snd (scanPage demoLib ''octo/demo'' [demoPull5]
                           \<lparr>pulls = [], authored = 0, merged = 0\<rparr> filledCacheWorld))
            else if Year ts < 2021
            then (Inr (True, \<lparr>pulls = [demoPull5\<lparr>MyContribution := ''authored'', Timestamp := ''2021-03-01''\<rparr>],
                              authored = 1, merged = 0\<rparr>),
                  snd (scanPage demoLib ''octo/demo'' [demoPull5]
                         \<lparr>pulls = [], authored = 0, merged = 0\<rparr> filledCacheWorld))
            else (case classify demoLib ''octo/demo'' (demoPull4\<lparr>Timestamp := Format ts\<rparr>)
                         (snd (scanPage demoLib ''octo/demo'' [demoPull5]
                                 \<lparr>pulls = [], authored = 0, merged = 0\<rparr> filledCacheWorld)) of
                    (Inl e, v2) \<Rightarrow> (Inl e, v2)
                  | (Inr c, v2) \<Rightarrow>
                      scanPage demoLib ''octo/demo'' []
                        (tally c (demoPull4\<lparr>Timestamp := Format ts\<rparr>)
                           \<lparr>pulls = [demoPull5\<lparr>MyContribution := ''authored'', Timestamp := ''2021-03-01''\<rparr>],
                              authored = 1, merged = 0\<rparr>) v2))
   \<and> fst (scanPage demoLib ''octo/demo'' (sort_Sort [demoPull4, demoPull5])
             \<lparr>pulls = [], authored = 0, merged = 0\<rparr> filledCacheWorld)
       = Inr (False, \<lparr>pulls = [demoPull5\<lparr>MyContribution := ''authored'', Timestamp := ''2021-03-01''\<rparr>,
                               demoPull4\<lparr>MyContribution := ''merged'', Timestamp := ''2021-02-01''\<rparr>],
                      authored = 1, merged = 1\<rparr>)
   \<and> Number (demoPull5\<lparr>MyContribution := ''authored'', Timestamp := ''2021-03-01''\<rparr>)
       \<ge> Number (demoPull4\<lparr>MyContribution := ''merged'', Timestamp := ''2021-02-01''\<rparr>)"
proof -
  let ?pl = "[demoPull4, demoPull5]"
  let ?repo = "''octo/demo''"
  let ?a = "\<lparr>pulls = [], authored = 0, merged = 0\<rparr>"
  let ?a1 = "\<lparr>pulls = [demoPull5\<lparr>MyContribution := ''authored'', Timestamp := ''2021-03-01''\<rparr>],
              authored = 1, merged = 0\<rparr>"
  let ?a2 = "\<lparr>pulls = [demoPull5\<lparr>MyContribution := ''authored'', Timestamp := ''2021-03-01''\<rparr>,
                       demoPull4\<lparr>MyContribution := ''merged'', Timestamp := ''2021-02-01''\<rparr>],
              authored = 1, merged = 1\<rparr>"
  let ?w1 = "snd (loadPulls demoLib ?repo 1 filledCacheWorld)"
  let ?v1 = "snd (scanPage demoLib ?repo [demoPull5] ?a filledCacheWorld)"
  let ?v2 = "snd (scanPage demoLib ?repo (sort_Sort ?pl) ?a filledCacheWorld)"
  have s: "sort_Sort ?pl = [demoPull5] @ demoPull4 # []"
    by code_simp
  have l: "fst (loadPulls demoLib ?repo 1 filledCacheWorld) = Inr ?pl"
    by code_simp
  have b: "fst (scanPage demoLib ?repo [demoPull5] ?a filledCacheWorld) = Inr (False, ?a1)"
    by code_simp
  have whole: "fst (scanPage demoLib ?repo (sort_Sort ?pl) ?a filledCacheWorld) = Inr (False, ?a2)"
    by code_simp
  have len: "(0::nat) < 1 \<and> 1 < length (sort_Sort ?pl)"
    by (simp add: s)
  note inst = sort_Sort_descending[of ?pl demoLib ?repo 1 filledCacheWorld ?w1 ?a
      "[demoPull5]" demoPull4 "[]" ?a filledCacheWorld ?a1 ?v1 False ?a2 ?v2]
  from inst have m: "mset (sort_Sort ?pl) = mset ?pl"
    and o: "\<forall>i j. i < j \<and> j < length (sort_Sort ?pl) \<longrightarrow> Number (sort_Sort ?pl ! i) \<ge> Number (sort_Sort ?pl ! j)"
    by blast+
  from o len have o01: "Number (sort_Sort ?pl ! 0) \<ge> Number (sort_Sort ?pl ! 1)"
    by blast
  from inst pair_with_snd[OF l]
  have v: "pageLoop demoLib ?repo 1 ?a filledCacheWorld =
          (case scanPage demoLib ?repo (sort_Sort ?pl) ?a ?w1 of
             (Inl e, w2) \<Rightarrow> Some (Inl e, w2)
           | (Inr (done, a'), w2) \<Rightarrow>
               if done then Some (Inr a', w2) else pageLoop demoLib ?repo (1 + 1) a' w2)"
    by blast
  from inst s pair_with_snd[OF b]
  have r: "scanPage demoLib ?repo (sort_Sort ?pl) ?a filledCacheWorld =
          (case parseTime demoLib demoPull4 of
             Inl e \<Rightarrow> (Inl e, ?v1)
           | Inr ts \<Rightarrow>
               if Year ts > 2021 then scanPage demoLib ?repo [] ?a1 ?v1
               else if Year ts < 2021 then (Inr (True, ?a1), ?v1)
               else (case classify demoLib ?repo (demoPull4\<lparr>Timestamp := Format ts\<rparr>) ?v1 of
                       (Inl e, v2) \<Rightarrow> (Inl e, v2)
                     | (Inr c, v2) \<Rightarrow>
                         scanPage demoLib ?repo [] (tally c (demoPull4\<lparr>Timestamp := Format ts\<rparr>) ?a1) v2))"
    by blast
  from inst pair_with_snd[OF whole]
  have ord: "\<forall>i j. i < j \<and> j < length (pulls ?a2) - length (pulls ?a) \<longrightarrow>
              Number (pulls ?a2 ! (length (pulls ?a) + i)) \<ge> Number (pulls ?a2 ! (length (pulls ?a) + j))"
    by blast
  have "(0::nat) < 1 \<and> 1 < length (pulls ?a2) - length (pulls ?a)"
    by simp
  with ord have "Number (pulls ?a2 ! (length (pulls ?a) + 0)) \<ge> Number (pulls ?a2 ! (length (pulls ?a) + 1))"
    by blast
  then have n: "Number (demoPull5\<lparr>MyContribution := ''authored'', Timestamp := ''2021-03-01''\<rparr>)
       \<ge> Number (demoPull4\<lparr>MyContribution := ''merged'', Timestamp := ''2021-02-01''\<rparr>)"
    by simp
  show ?thesis
    apply (intro conjI)
    subgoal by (rule s)
    subgoal by (rule m)
    subgoal by simp
    subgoal using len by simp
    subgoal by (rule o01)
    subgoal by (rule l)
    subgoal by simp
    subgoal by (rule v)
    subgoal by (rule b)
    subgoal by (rule r)
    subgoal by (rule whole)
    subgoal by (rule n)
    done
qed

section \<open>The counters of a result\<close>

lemma tally_tallied: "tallied a \<Longrightarrow> tallied (tally c p a)"
  by (cases c) (simp_all add: tallied_def)

lemma scanPage_tallied:
  "scanPage L repo ps a w = (Inr (d, a'), w') \<Longrightarrow> tallied a \<Longrightarrow> tallied a'"
proof (induction ps arbitrary: a w)
  case Nil
  then show ?case by simp
next
  case (Cons p ps)
  then show ?case
    by (auto split: sum.splits if_splits prod.splits dest: tally_tallied)
qed

lemma pageLoop_tallied_result:
  assumes "pageLoop L repo page a w = Some r"
  shows "tallied a \<longrightarrow> (\<forall>a' w'. r = (Inr a', w') \<longrightarrow> tallied a')"
  using assms
proof (rule pageLoop.raw_induct[rotated,
        where P = "\<lambda>L repo page a w r. tallied a \<longrightarrow> (\<forall>a' w'. r = (Inr a', w') \<longrightarrow> tallied a')"])
  fix f L repo page a w r
  assume IH: "\<And>L repo page a w r. f L repo page a w = Some r \<Longrightarrow>
                 tallied a \<longrightarrow> (\<forall>a' w'. r = (Inr a', w') \<longrightarrow> tallied a')"
    and step: "(case loadPulls L repo page w of (Inl e, w1) \<Rightarrow> Some (Inl e, w1)
      | (Inr pagePulls, w1) \<Rightarrow>
          if length pagePulls = 0 then Some (Inr a, w1)
          else (case scanPage L repo (sort_Sort pagePulls) a w1 of
                  (Inl e, w2) \<Rightarrow> Some (Inl e, w2)
                | (Inr (done, a'), w2) \<Rightarrow>
                    if done then Some (Inr a', w2)
                    else f L repo (page + 1) a' w2)) = Some r"
  show "tallied a \<longrightarrow> (\<forall>a' w'. r = (Inr a', w') \<longrightarrow> tallied a')"
    using step IH
    by (auto split: sum.splits if_splits prod.splits dest: scanPage_tallied)
qed

lemma pageLoop_tallied:
  "pageLoop L repo page a w = Some (Inr a', w') \<Longrightarrow> tallied a \<Longrightarrow> tallied a'"
  using pageLoop_tallied_result by blast

lemma repoResult_counts:
  "tallied a \<Longrightarrow>
   Authored (repoResult repo a) + Merged (repoResult repo a) = int (length (Pulls (repoResult repo a)))"
  by (simp add: tallied_def repoResult_def)

lemma repoLoop_executes_counted:
  "repoLoop L repos w = Some (r, w') \<Longrightarrow>
   grown (\<lambda>e. \<forall>res. e = Execute res \<longrightarrow> Authored res + Merged res = int (length (Pulls res))) w w'"
proof (induction repos arbitrary: w)
  case Nil
  then show ?case by (simp add: grown_refl)
next
  case (Cons repo repos)
  let ?Q = "\<lambda>e. \<forall>res. e = Execute res \<longrightarrow> Authored res + Merged res = int (length (Pulls res))"
  let ?a0 = "\<lparr>pulls = [], authored = 0, merged = 0\<rparr>"
  from Cons.prems obtain r1 w1 where p: "pageLoop L repo 1 ?a0 w = Some (r1, w1)"
    by (cases "pageLoop L repo 1 ?a0 w") auto
  from quiet_pageLoop[OF p] have "grown (\<lambda>e. \<not> isExecute e) w w1"
    by simp
  then have q1: "grown ?Q w w1"
    by (rule grown_mono) auto
  show ?case
  proof (cases r1)
    case (Inl e)
    with Cons.prems p q1 show ?thesis by simp
  next
    case (Inr a)
    have "tallied ?a0"
      by (simp add: tallied_def)
    with p Inr have "tallied a"
      by (blast dest: pageLoop_tallied)
    then have "?Q (Execute (repoResult repo a))"
      by (simp add: repoResult_counts)
    then have "grown ?Q w1 (emit (Execute (repoResult repo a)) w1)"
      by (rule grown_emit)
    with q1 have q2: "grown ?Q w (emit (Execute (repoResult repo a)) w1)"
      by (rule grown_trans)
    show ?thesis
    proof (cases "executeFails L (repoResult repo a)")
      case True
      with Cons.prems p Inr q2 show ?thesis
        by (simp add: Let_def)
    next
      case False
      with Cons.prems p Inr have "repoLoop L repos (emit (Execute (repoResult repo a)) w1) = Some (r, w')"
        by (simp add: Let_def)
      from q2 Cons.IH[OF this] show ?thesis
        by (rule grown_trans)
    qed
  qed
qed

lemma main_executes_counted:
  assumes "main L repos w = Some (r, w')"
  shows "grown (\<lambda>e. \<forall>res. e = Execute res \<longrightarrow> Authored res + Merged res = int (length (Pulls res))) w w'"
proof -
  let ?Q = "\<lambda>e. \<forall>res. e = Execute res \<longrightarrow> Authored res + Merged res = int (length (Pulls res))"
  have "grown ?Q w (emit PrintHeader w)"
    by (rule grown_emit) simp
  moreover from assms have "grown ?Q (emit PrintHeader w) w'"
    by (simp add: main_def repoLoop_executes_counted)
  ultimately show ?thesis
    by (rule grown_trans)
qed

lemma option_with_snd: "map_option fst m = Some a \<Longrightarrow> m = Some (a, snd (the m))"
  by (cases m) auto

text \<open>
  C9. In every result that a run of \<open>main\<close> hands to the renderer, the two counters add
  up to the number of accumulated pulls; the same holds for the result built from any
  finished traversal of a repository. A pull tagged as authored or as merged is appended
  and raises exactly its own counter by one; a pull without a tag changes nothing.
\<close>

theorem counters_match_pulls:
  "(main L repos w = Some (r, w') \<longrightarrow>
      (\<forall>res. Execute res \<in> set (since (length (trace w)) w') \<longrightarrow>
         Authored res + Merged res = int (length (Pulls res))))
   \<and> (pageLoop L repo 1 \<lparr>pulls = [], authored = 0, merged = 0\<rparr> v = Some (Inr a, v') \<longrightarrow>
        Authored (repoResult repo a) + Merged (repoResult repo a) = int (length (Pulls (repoResult repo a))))
   \<and> (c = authored_tag \<longrightarrow>
        pulls (tally c p b) = pulls b @ [p\<lparr>MyContribution := ''authored''\<rparr>]
        \<and> authored (tally c p b) = authored b + 1 \<and> merged (tally c p b) = merged b)
   \<and> (c = merged_tag \<longrightarrow>
        pulls (tally c p b) = pulls b @ [p\<lparr>MyContribution := ''merged''\<rparr>]
        \<and> authored (tally c p b) = authored b \<and> merged (tally c p b) = merged b + 1)
   \<and> (c = no_tag \<longrightarrow> tally c p b = b)"
proof -
  have m: "main L repos w = Some (r, w') \<longrightarrow>
      (\<forall>res. Execute res \<in> set (since (length (trace w)) w') \<longrightarrow>
         Authored res + Merged res = int (length (Pulls res)))"
    using grown_since[OF main_executes_counted[of L repos w r w']] by blast
  have t0: "tallied \<lparr>pulls = [], authored = 0, merged = 0\<rparr>"
    by (simp add: tallied_def)
  have l: "pageLoop L repo 1 \<lparr>pulls = [], authored = 0, merged = 0\<rparr> v = Some (Inr a, v') \<longrightarrow>
        Authored (repoResult repo a) + Merged (repoResult repo a) = int (length (Pulls (repoResult repo a)))"
    using pageLoop_tallied[OF _ t0] repoResult_counts by blast
  from m l show ?thesis
    by simp
qed

theorem counters_match_pulls_witness:
  "map_option fst (main demoLib [''octo/demo''] emptyCacheWorld) = Some (Inr ())
   \<and> Execute \<lparr>Name = ''octo/demo'',
                Pulls = [demoPull5\<lparr>MyContribution := ''authored'', Timestamp := ''2021-03-01''\<rparr>,
                         demoPull4\<lparr>MyContribution := ''merged'', Timestamp := ''2021-02-01''\<rparr>],
                Authored = 1, Merged = 1\<rparr>
       \<in> set (since (length (trace emptyCacheWorld)) (snd (the (main demoLib [''octo/demo''] emptyCacheWorld))))
   \<and> Authored \<lparr>Name = ''octo/demo'',
                Pulls = [demoPull5\<lparr>MyContribution := ''authored'', Timestamp := ''2021-03-01''\<rparr>,
                         demoPull4\<lparr>MyContribution := ''merged'', Timestamp := ''2021-02-01''\<rparr>],
                Authored = 1, Merged = 1\<rparr>
     + Merged \<lparr>Name = ''octo/demo'',
                Pulls = [demoPull5\<lparr>MyContribution := ''authored'', Timestamp := ''2021-03-01''\<rparr>,
                         demoPull4\<lparr>MyContribution := ''merged'', Timestamp := ''2021-02-01''\<rparr>],
                Authored = 1, Merged = 1\<rparr>
     = int (length (Pulls \<lparr>Name = ''octo/demo'',
                Pulls = [demoPull5\<lparr>MyContribution := ''authored'', Timestamp := ''2021-03-01''\<rparr>,
                         demoPull4\<lparr>MyContribution := ''merged'', Timestamp := ''2021-02-01''\<rparr>],
                Authored = 1, Merged = 1\<rparr>))
   \<and> tally no_tag demoPull4 \<lparr>pulls = [], authored = 0, merged = 0\<rparr> = \<lparr>pulls = [], authored = 0, merged = 0\<rparr>
   \<and> authored (tally authored_tag demoPull5 \<lparr>pulls = [], authored = 0, merged = 0\<rparr>) = 0 + 1
   \<and> merged (tally merged_tag demoPull4 \<lparr>pulls = [], authored = 0, merged = 0\<rparr>) = 0 + 1"
proof -
  let ?repo = "''octo/demo''"
  let ?m = "main demoLib [?repo] emptyCacheWorld"
  let ?a0 = "\<lparr>pulls = [], authored = 0, merged = 0\<rparr>"
  let ?a2 = "\<lparr>pulls = [demoPull5\<lparr>MyContribution := ''authored'', Timestamp := ''2021-03-01''\<rparr>,
                       demoPull4\<lparr>MyContribution := ''merged'', Timestamp := ''2021-02-01''\<rparr>],
              authored = 1, merged = 1\<rparr>"
  let ?res = "\<lparr>Name = ''octo/demo'',
                Pulls = [demoPull5\<lparr>MyContribution := ''authored'', Timestamp := ''2021-03-01''\<rparr>,
                         demoPull4\<lparr>MyContribution := ''merged'', Timestamp := ''2021-02-01''\<rparr>],
                Authored = 1, Merged = 1\<rparr>"
  let ?w0 = "emit PrintHeader emptyCacheWorld"
  let ?w1 = "snd (loadPulls demoLib ?repo 1 ?w0)"
  let ?w2 = "snd (scanPage demoLib ?repo (sort_Sort [demoPull4, demoPull5]) ?a0 ?w1)"
  let ?w3 = "snd (loadPulls demoLib ?repo 2 ?w2)"
  have l1: "fst (loadPulls demoLib ?repo 1 ?w0) = Inr [demoPull4, demoPull5]"
    by code_simp
  have s1: "fst (scanPage demoLib ?repo (sort_Sort [demoPull4, demoPull5]) ?a0 ?w1) = Inr (False, ?a2)"
    by code_simp
  have l2: "fst (loadPulls demoLib ?repo 2 ?w2) = Inr []"
    by code_simp
  have p2: "pageLoop demoLib ?repo 2 ?a2 ?w2 = Some (Inr ?a2, ?w3)"
    by (rule pageLoop_empty_page[OF pair_with_snd[OF l2]])
  have p1: "pageLoop demoLib ?repo 1 ?a0 ?w0 = Some (Inr ?a2, ?w3)"
    by (subst pageLoop_nonempty_page[OF pair_with_snd[OF l1]], simp)
      (subst pair_with_snd[OF s1], simp add: p2)
  have ef: "executeFails demoLib x = False" for x
    by (simp add: demoLib_def)
  have rr: "repoResult ?repo ?a2 = ?res"
    by (simp add: repoResult_def)
  have m: "?m = Some (Inr (), emit (Execute ?res) ?w3)"
    unfolding main_def by (simp add: p1 ef rr Let_def)
  have run: "map_option fst ?m = Some (Inr ())"
    by (simp add: m)
  have mem: "Execute ?res \<in> set (since (length (trace emptyCacheWorld)) (snd (the ?m)))"
    by (subst m) (simp add: since_def emit_def emptyCacheWorld_def)
  from counters_match_pulls[of demoLib "[''octo/demo'']" emptyCacheWorld "Inr ()" "snd (the ?m)"
      "''octo/demo''" emptyCacheWorld _ _ no_tag demoPull4 ?a0]
    option_with_snd[OF run] mem
  have inv: "Authored ?res + Merged ?res = int (length (Pulls ?res))"
    and nt: "tally no_tag demoPull4 ?a0 = ?a0"
    by blast+
  from counters_match_pulls[of demoLib "[''octo/demo'']" emptyCacheWorld "Inr ()" "snd (the ?m)"
      "''octo/demo''" emptyCacheWorld _ _ authored_tag demoPull5 ?a0]
  have au: "authored (tally authored_tag demoPull5 ?a0) = 0 + 1"
    by simp
  from counters_match_pulls[of demoLib "[''octo/demo'']" emptyCacheWorld "Inr ()" "snd (the ?m)"
      "''octo/demo''" emptyCacheWorld _ _ merged_tag demoPull4 ?a0]
  have me: "merged (tally merged_tag demoPull4 ?a0) = 0 + 1"
    by simp
  from run mem inv nt au me show ?thesis
    by blast
qed

end
